theory Spec2Isabelle
  imports Complex_Main "HOL-Library.Sublist"
begin

section \<open>Numbers, errors and arrays\<close>

text \<open>
  The program works on numpy arrays of floating-point numbers. A finite float is modelled
  as an exact \<^typ>\<open>real\<close> (rounding is not modelled). The only place where the program
  can leave the finite numbers is the division that ends \<open>iou\<close>: numpy scalars do not
  raise on a zero divisor, they give \<open>nan\<close> for \<open>0/0\<close> and an infinity for \<open>x/0\<close>.
\<close>

datatype npfloat = Finite real | PosInf | NegInf | NaN

definition np_divide :: "real \<Rightarrow> real \<Rightarrow> npfloat" where
  "np_divide x y =
     (if y \<noteq> 0 then Finite (x / y)
      else if x = 0 then NaN
      else if 0 < x then PosInf else NegInf)"

text \<open>The comparison \<open>v > t\<close> of a numpy scalar with a finite threshold: false for \<open>nan\<close>.\<close>

fun np_greater :: "npfloat \<Rightarrow> real \<Rightarrow> bool" where
  "np_greater (Finite x) t = (t < x)"
| "np_greater PosInf t = True"
| "np_greater NegInf t = False"
| "np_greater NaN t = False"

text \<open>
  The only exception the pipeline can raise on a flat buffer of floats is the
  \<open>ValueError\<close> of \<open>np.reshape\<close>, "cannot reshape array of size n into shape s";
  it is kept with the size \<open>n\<close> and the shape \<open>s\<close> of its message.
\<close>

datatype error = ValueError nat "nat list"

text \<open>
  An array is its flat row-major content; \<open>np.reshape\<close> keeps the content and only checks
  that the number of elements is the product of the requested shape.
\<close>

definition reshape :: "real list \<Rightarrow> nat list \<Rightarrow> error + real list" where
  "reshape a shape =
     (if length a = prod_list shape then Inr a else Inl (ValueError (length a) shape))"

text \<open>
  An in-place statement \<open>a[sel] op= v\<close> on a flat array: the entries whose flat index
  is selected are replaced, the others are kept.
\<close>

definition inplace :: "(nat \<Rightarrow> bool) \<Rightarrow> (nat \<Rightarrow> real \<Rightarrow> real) \<Rightarrow> real list \<Rightarrow> real list" where
  "inplace sel f a = map (\<lambda>i. if sel i then f i (a ! i) else a ! i) [0..<length a]"

section \<open>get_boxes\<close>

text \<open>
  \<open>boxes\<close> has shape \<open>(grid_size, grid_size, num_boxes, 4)\<close>: the entry
  \<open>boxes[row, col, b, comp]\<close> is at the flat index
  \<open>((row * grid_size + col) * num_boxes + b) * 4 + comp\<close>.
  \<open>offset = np.tile(np.arange(grid_size)[:, np.newaxis], (grid_size, 1, num_boxes))\<close>
  has \<open>offset[i, j, k] = j\<close>, so \<open>offset\<close> adds the column index and its transpose
  \<open>(1, 0, 2)\<close> adds the row index.
\<close>

definition box_row :: "nat \<Rightarrow> nat \<Rightarrow> nat \<Rightarrow> nat" where
  "box_row grid_size num_boxes i = i div (grid_size * num_boxes * 4)"

definition box_col :: "nat \<Rightarrow> nat \<Rightarrow> nat \<Rightarrow> nat" where
  "box_col grid_size num_boxes i = (i div (num_boxes * 4)) mod grid_size"

text \<open>
  \<open>img_size\<close> is \<open>img.shape\<close>: \<open>img_size[0]\<close> is the height and \<open>img_size[1]\<close> the
  width. \<open>np.reshape\<close> of the contiguous slice it is given returns a view, and every
  statement after it is in place: the list returned is the value of \<open>boxes\<close> and also
  the new content of the memory of the argument \<open>output\<close>.
\<close>

definition get_boxes :: "real list \<Rightarrow> nat \<times> nat \<Rightarrow> nat \<Rightarrow> nat \<Rightarrow> error + real list" where
  "get_boxes output img_size grid_size num_boxes =
     (let w_img = real (snd img_size); h_img = real (fst img_size) in
      case reshape output [grid_size, grid_size, num_boxes, 4] of
        Inl e \<Rightarrow> Inl e
      | Inr boxes0 \<Rightarrow>
          let boxes1 = inplace (\<lambda>i. i mod 4 = 0)
                         (\<lambda>i v. v + real (box_col grid_size num_boxes i)) boxes0;
              boxes2 = inplace (\<lambda>i. i mod 4 = 1)
                         (\<lambda>i v. v + real (box_row grid_size num_boxes i)) boxes1;
              boxes3 = inplace (\<lambda>i. i mod 4 < 2) (\<lambda>i v. v / 7) boxes2;
              boxes4 = inplace (\<lambda>i. 2 \<le> i mod 4) (\<lambda>i v. v * v) boxes3;
              boxes5 = inplace (\<lambda>i. i mod 4 = 0 \<or> i mod 4 = 2) (\<lambda>i v. v * w_img) boxes4;
              boxes6 = inplace (\<lambda>i. i mod 4 = 1 \<or> i mod 4 = 3) (\<lambda>i v. v * h_img) boxes5
          in Inr boxes6)"

section \<open>parse_yolo_output\<close>

definition num_classes :: nat where "num_classes = 20"
definition num_boxes :: nat where "num_boxes = 2"
definition grid_size :: nat where "grid_size = 7"

definition sc_offset :: nat where
  "sc_offset = grid_size * grid_size * num_classes"

definition box_offset :: nat where
  "box_offset = sc_offset + grid_size * grid_size * num_boxes"

text \<open>
  \<open>probs\<close> has shape \<open>(grid_size, grid_size, num_boxes, num_classes)\<close>; its flat index
  \<open>n\<close> is \<open>(cell * num_boxes + i) * num_classes + j\<close> with \<open>cell = row * grid_size + col\<close>.
  The two loops store \<open>class_probs[row, col, j] * confidences[row, col, i]\<close> there.
\<close>

definition fuse_probs :: "real list \<Rightarrow> real list \<Rightarrow> real list" where
  "fuse_probs class_probs confidences =
     map (\<lambda>n. let j = n mod num_classes;
                  i = (n div num_classes) mod num_boxes;
                  cell = n div (num_classes * num_boxes)
              in class_probs ! (cell * num_classes + j) * confidences ! (cell * num_boxes + i))
         [0..<grid_size * grid_size * num_boxes * num_classes]"

text \<open>
  The result is paired with the content of the caller's buffer after the call:
  \<open>output[box_offset:]\<close> is a view of the buffer, and \<open>get_boxes\<close> writes through it.
  An exception leaves the buffer as it was (the reshapes come before every write).
\<close>

definition parse_yolo_output ::
    "real list \<Rightarrow> nat \<times> nat \<Rightarrow> (error + real list \<times> real list) \<times> real list" where
  "parse_yolo_output output img_size =
     (case reshape (take sc_offset output) [grid_size, grid_size, num_classes] of
        Inl e \<Rightarrow> (Inl e, output)
      | Inr class_probs \<Rightarrow>
         (case reshape (drop sc_offset (take box_offset output))
                 [grid_size, grid_size, num_boxes] of
            Inl e \<Rightarrow> (Inl e, output)
          | Inr confidences \<Rightarrow>
             (let probs = fuse_probs class_probs confidences in
              case get_boxes (drop box_offset output) img_size grid_size num_boxes of
                Inl e \<Rightarrow> (Inl e, output)
              | Inr boxes \<Rightarrow> (Inr (boxes, probs), take box_offset output @ boxes))))"

section \<open>iou\<close>

type_synonym box = "real \<times> real \<times> real \<times> real"

definition iou_intersection :: "box \<Rightarrow> box \<Rightarrow> real" where
  "iou_intersection box1 box2 =
     (case (box1, box2) of ((x1, y1, w1, h1), (x2, y2, w2, h2)) \<Rightarrow>
        let int_tb = min (x1 + 0.5 * w1) (x2 + 0.5 * w2) - max (x1 - 0.5 * w1) (x2 - 0.5 * w2);
            int_lr = min (y1 + 0.5 * h1) (y2 + 0.5 * h2) - max (y1 - 0.5 * h1) (y2 - 0.5 * h2)
        in max 0 int_tb * max 0 int_lr)"

definition iou_union :: "box \<Rightarrow> box \<Rightarrow> real" where
  "iou_union box1 box2 =
     (case (box1, box2) of ((x1, y1, w1, h1), (x2, y2, w2, h2)) \<Rightarrow>
        w1 * h1 + w2 * h2 - iou_intersection box1 box2)"

definition iou :: "box \<Rightarrow> box \<Rightarrow> npfloat" where
  "iou box1 box2 = np_divide (iou_intersection box1 box2) (iou_union box1 box2)"

section \<open>get_candidate_objects\<close>

definition classes :: "string list" where
  "classes = [''aeroplane'', ''bicycle'', ''bird'', ''boat'', ''bottle'', ''bus'', ''car'',
              ''cat'', ''chair'', ''cow'', ''diningtable'', ''dog'', ''horse'', ''motorbike'',
              ''person'', ''pottedplant'', ''sheep'', ''sofa'', ''train'', ''tvmonitor'']"

definition threshold :: real where "threshold = 0.2"
definition iou_threshold :: real where "iou_threshold = 0.5"

text \<open>
  \<open>np.nonzero(mask)\<close> lists the indices of the true entries in row-major order; here
  they are kept as flat indices \<open>n\<close> into \<open>probs\<close>. Its first three components
  \<open>(row, col, b)\<close> are the flat index \<open>n div num_classes\<close> into the leading three axes,
  which is where \<open>boxes[...]\<close> and the \<open>argmax\<close> array are read.
\<close>

definition nonzero :: "bool list \<Rightarrow> nat list" where
  "nonzero flags = filter (\<lambda>n. flags ! n) [0..<length flags]"

definition box_at :: "real list \<Rightarrow> nat \<Rightarrow> box" where
  "box_at boxes m = (boxes ! (4 * m), boxes ! (4 * m + 1), boxes ! (4 * m + 2), boxes ! (4 * m + 3))"

text \<open>
  \<open>np.argmax(mask, axis=3)\<close> on booleans: the first class index whose entry is true
  (and 0 when none is).
\<close>

definition argmax_axis3 :: "bool list \<Rightarrow> nat \<Rightarrow> nat" where
  "argmax_axis3 flags m =
     (case find (\<lambda>k. flags ! (m * num_classes + k)) [0..<num_classes] of
        Some k \<Rightarrow> k | None \<Rightarrow> 0)"

text \<open>
  \<open>np.argsort\<close> returns the indices that put the values in ascending order. Its default
  kind is not stable: the order it gives to the indices of equal values is not specified
  and changes with the numpy version and the length of the array. The library function
  is therefore a parameter \<open>argsort\<close> of the functions that call it, and \<open>is_argsort\<close> is
  all that is known of it: the result is a permutation of the indices, and it sorts.
\<close>

definition is_argsort :: "(real list \<Rightarrow> nat list) \<Rightarrow> bool" where
  "is_argsort argsort =
     (\<forall>xs. distinct (argsort xs) \<and> set (argsort xs) = {0..<length xs} \<and>
           sorted (map (\<lambda>i. xs ! i) (argsort xs)))"

text \<open>Fancy indexing \<open>a[idx]\<close> with an index array: a fresh array.\<close>

definition take_idx :: "'a list \<Rightarrow> nat list \<Rightarrow> 'a list" where
  "take_idx a idx = map (\<lambda>i. a ! i) idx"

text \<open>The inner loop over \<open>j\<close> for one \<open>i\<close>, and the outer loop: both update \<open>probs_filtered\<close>.\<close>

definition nms_inner :: "box list \<Rightarrow> nat \<Rightarrow> real list \<Rightarrow> real list" where
  "nms_inner boxes_filtered i probs_filtered =
     foldl (\<lambda>ps j. if np_greater (iou (boxes_filtered ! i) (boxes_filtered ! j)) iou_threshold
                    then ps[j := 0] else ps)
           probs_filtered [i + 1..<length boxes_filtered]"

definition nms :: "box list \<Rightarrow> real list \<Rightarrow> real list" where
  "nms boxes_filtered probs_filtered =
     foldl (\<lambda>ps i. if ps ! i = 0 then ps else nms_inner boxes_filtered i ps)
           probs_filtered [0..<length boxes_filtered]"

type_synonym detection = "string \<times> real \<times> real \<times> real \<times> real \<times> real"

definition mk_result :: "nat \<times> box \<times> real \<Rightarrow> detection" where
  "mk_result t = (case t of (class_id, (x, y, w, h), prob) \<Rightarrow> (classes ! class_id, x, y, w, h, prob))"

text \<open>Lines 81 to 85: the candidates in enumeration order, as (class id, box, score).\<close>

definition filtered :: "real list \<Rightarrow> real list \<Rightarrow> (nat \<times> box \<times> real) list" where
  "filtered boxes probs =
     (let filter_mat_probs = map (\<lambda>p. threshold \<le> p) probs;
          nz = nonzero filter_mat_probs;
          filter_mat_boxes = map (\<lambda>n. n div num_classes) nz;
          boxes_filtered = map (box_at boxes) filter_mat_boxes;
          probs_filtered = take_idx probs nz;
          classes_num_filtered = map (argmax_axis3 filter_mat_probs) filter_mat_boxes
      in zip classes_num_filtered (zip boxes_filtered probs_filtered))"

text \<open>Lines 87 to 90: the three arrays reordered by the reversed \<open>argsort\<close> of the scores.\<close>

definition sorted_desc ::
    "(real list \<Rightarrow> nat list) \<Rightarrow> (nat \<times> box \<times> real) list \<Rightarrow> (nat \<times> box \<times> real) list" where
  "sorted_desc argsort cands =
     (let idx = rev (argsort (map (\<lambda>t. snd (snd t)) cands)) in take_idx cands idx)"

text \<open>Lines 92 to 107: suppression, the filter on positive scores, and the result rows.\<close>

definition suppressed :: "(nat \<times> box \<times> real) list \<Rightarrow> (nat \<times> box \<times> real) list" where
  "suppressed cands =
     (let classes_num_filtered = map fst cands;
          boxes_filtered = map (\<lambda>t. fst (snd t)) cands;
          probs_filtered = nms boxes_filtered (map (\<lambda>t. snd (snd t)) cands)
      in filter (\<lambda>t. 0 < snd (snd t))
           (zip classes_num_filtered (zip boxes_filtered probs_filtered)))"

definition get_candidate_objects ::
    "(real list \<Rightarrow> nat list) \<Rightarrow> real list \<Rightarrow> nat \<times> nat \<Rightarrow> (error + detection list) \<times> real list" where
  "get_candidate_objects argsort output img_size =
     (case parse_yolo_output output img_size of
        (Inl e, buf) \<Rightarrow> (Inl e, buf)
      | (Inr (boxes, probs), buf) \<Rightarrow>
          (Inr (map mk_result (suppressed (sorted_desc argsort (filtered boxes probs)))), buf))"

section \<open>Notions used to state the properties\<close>

text \<open>
  The candidates that pass the threshold, in the order in which lines 81 to 85 enumerate
  them (before they are sorted); empty when the decoding fails.
\<close>

definition candidates :: "real list \<Rightarrow> nat \<times> nat \<Rightarrow> (nat \<times> box \<times> real) list" where
  "candidates output img_size =
     (case parse_yolo_output output img_size of
        (Inl e, buf) \<Rightarrow> []
      | (Inr (boxes, probs), buf) \<Rightarrow> filtered boxes probs)"

text \<open>
  One function that satisfies \<open>is_argsort\<close>, for the evaluations on concrete buffers: the
  ascending insertion sort of the indices. On two equal values it returns \<open>[0, 1]\<close>, as
  \<open>np.argsort\<close> does.
\<close>

definition insertion_argsort :: "real list \<Rightarrow> nat list" where
  "insertion_argsort xs = sort_key (\<lambda>i. xs ! i) [0..<length xs]"

text \<open>The score of a result row, \<open>result[5]\<close>.\<close>

definition det_score :: "detection \<Rightarrow> real" where
  "det_score d = (case d of (name, x, y, w, h, prob) \<Rightarrow> prob)"

text \<open>The state of \<open>probs_filtered\<close> after the first \<open>m\<close> rounds of the outer loop.\<close>

definition nms_upto :: "box list \<Rightarrow> real list \<Rightarrow> nat \<Rightarrow> real list" where
  "nms_upto boxes ps m =
     foldl (\<lambda>ps i. if ps ! i = 0 then ps else nms_inner boxes i ps) ps [0..<m]"

section \<open>Concrete inputs\<close>

text \<open>
  The scenario buffer: class probability 1 at \<open>[3, 3, 14]\<close> (flat index 494), confidence 1
  at \<open>[3, 3, 0]\<close> (flat index 1028), raw geometry (0.5, 0.5, 0.1, 0.1) at \<open>[3, 3, 0, :]\<close>
  (flat indices 1270 to 1273), zero elsewhere.
\<close>

definition scenario_output :: "real list" where
  "scenario_output = (replicate 1470 0)[494 := 1, 1028 := 1, 1270 := 1/2, 1271 := 1/2, 1272 := 1/10, 1273 := 1/10]"

text \<open>
  Two classes of one box pass the threshold: in cell (0, 0) the class probabilities are
  0.5 for class 0 and 1 for class 1, the confidence of box 0 is 1 and its raw geometry is
  (0.5, 0.5, 0.1, 0.1).
\<close>

definition two_class_output :: "real list" where
  "two_class_output = (replicate 1470 0)[0 := 1/2, 1 := 1, 980 := 1,
      1078 := 1/2, 1079 := 1/2, 1080 := 1/10, 1081 := 1/10]"

text \<open>
  Two boxes of one cell with the same score: in cell (0, 0) the probability of class 0 is 1
  and both confidences are 1; box 0 has raw geometry (0.5, 0.5, 0.4, 0.5) and box 1 has
  (0.5, 0.5, 0.5, 0.5).
\<close>

definition tie_output :: "real list" where
  "tie_output = (replicate 1470 0)[0 := 1, 980 := 1, 981 := 1,
      1078 := 1/2, 1079 := 1/2, 1080 := 2/5, 1081 := 1/2,
      1082 := 1/2, 1083 := 1/2, 1084 := 1/2, 1085 := 1/2]"

text \<open>
  Two objects far apart: class 0 with probability 0.5 in cell (0, 0), box 0, and class 19
  with probability 1 in cell (6, 6), box 1; both raw geometries are (0.5, 0.5, 0.1, 0.1).
\<close>

definition two_objects_output :: "real list" where
  "two_objects_output = (replicate 1470 0)[0 := 1/2, 980 := 1,
      1078 := 1/2, 1079 := 1/2, 1080 := 1/10, 1081 := 1/10,
      979 := 1, 1077 := 1, 1466 := 1/2, 1467 := 1/2, 1468 := 1/10, 1469 := 1/10]"

section \<open>Arrays and the geometry transform\<close>

lemma length_inplace: "length (inplace sel f a) = length a"
  by (simp add: inplace_def)

lemma nth_inplace: "i < length a \<Longrightarrow> inplace sel f a ! i = (if sel i then f i (a ! i) else a ! i)"
  by (simp add: inplace_def)

lemma get_boxes_length_ok:
  assumes "length output = S * S * B * 4"
  shows "\<exists>boxes. get_boxes output img_size S B = Inr boxes \<and> length boxes = length output"
  using assms by (simp add: get_boxes_def reshape_def Let_def length_inplace)

lemma get_boxes_nth:
  assumes "get_boxes output (h_img, w_img) S B = Inr boxes" "i < length output"
  shows "boxes ! i =
     (if i mod 4 = 0 then (output ! i + real (box_col S B i)) / 7 * real w_img
      else if i mod 4 = 1 then (output ! i + real (box_row S B i)) / 7 * real h_img
      else if i mod 4 = 2 then output ! i * output ! i * real w_img
      else output ! i * output ! i * real h_img)"
proof -
  have m: "i mod 4 = 0 \<or> i mod 4 = 1 \<or> i mod 4 = 2 \<or> i mod 4 = 3" by presburger
  from assms(1) have b: "boxes = inplace (\<lambda>i. i mod 4 = 1 \<or> i mod 4 = 3) (\<lambda>i v. v * real h_img)
     (inplace (\<lambda>i. i mod 4 = 0 \<or> i mod 4 = 2) (\<lambda>i v. v * real w_img)
     (inplace (\<lambda>i. 2 \<le> i mod 4) (\<lambda>i v. v * v)
     (inplace (\<lambda>i. i mod 4 < 2) (\<lambda>i v. v / 7)
     (inplace (\<lambda>i. i mod 4 = 1) (\<lambda>i v. v + real (box_row S B i))
     (inplace (\<lambda>i. i mod 4 = 0) (\<lambda>i v. v + real (box_col S B i)) output)))))"
    by (simp add: get_boxes_def reshape_def Let_def split: if_splits)
  from m show ?thesis
    using assms(2) unfolding b by (auto simp add: nth_inplace length_inplace)
qed

lemma get_boxes_fail:
  "length output \<noteq> S * S * B * 4 \<Longrightarrow>
     get_boxes output img_size S B = Inl (ValueError (length output) [S, S, B, 4])"
  by (simp add: get_boxes_def reshape_def Let_def)

lemma flat_index_div:
  assumes "b < B" "k < (4::nat)"
  shows "(((cell * B + b) * 4 + k) div (B * 4)) = cell"
proof -
  have "((cell * B + b) * 4 + k) div (B * 4) = (((cell * B + b) * 4 + k) div 4) div B"
    by (subst mult.commute [of B 4], rule div_mult2_eq)
  also have "((cell * B + b) * 4 + k) div 4 = cell * B + b" using assms by simp
  also have "(cell * B + b) div B = cell" using assms by simp
  finally show ?thesis .
qed

lemma box_col_flat:
  assumes "b < B" "k < 4" "col < S"
  shows "box_col S B (((row * S + col) * B + b) * 4 + k) = col"
  unfolding box_col_def flat_index_div [OF assms(1,2)] using assms(3) by simp

lemma box_row_flat:
  assumes "b < B" "k < 4" "col < S"
  shows "box_row S B (((row * S + col) * B + b) * 4 + k) = row"
proof -
  have "(((row * S + col) * B + b) * 4 + k) div (S * B * 4) =
        ((((row * S + col) * B + b) * 4 + k) div (B * 4)) div S"
  proof -
    have "S * B * 4 = (B * 4) * S" by simp
    then show ?thesis by (simp only: div_mult2_eq)
  qed
  then show ?thesis unfolding box_row_def flat_index_div [OF assms(1,2)] using assms(3) by simp
qed

lemma flat_index_bound:
  assumes "row < S" "col < S" "b < B" "k < (4::nat)"
  shows "((row * S + col) * B + b) * 4 + k < S * S * B * 4"
proof -
  have "row * S + col < S * S"
  proof -
    have "row * S + col < row * S + S" using assms by simp
    also have "\<dots> = (row + 1) * S" by simp
    finally have lt: "row * S + col < (row + 1) * S" .
    have "row + 1 \<le> S" using assms by simp
    then have "(row + 1) * S \<le> S * S" by (rule mult_le_mono1)
    with lt show ?thesis by (rule less_le_trans)
  qed
  then have "(row * S + col) + 1 \<le> S * S" by simp
  then have "((row * S + col) + 1) * B \<le> S * S * B" by (rule mult_le_mono1)
  moreover have "(row * S + col) * B + b < ((row * S + col) + 1) * B" using assms by simp
  ultimately have "(row * S + col) * B + b + 1 \<le> S * S * B" by simp
  then have "((row * S + col) * B + b + 1) * 4 \<le> S * S * B * 4" by (rule mult_le_mono1)
  moreover have "((row * S + col) * B + b) * 4 + k < ((row * S + col) * B + b + 1) * 4"
    using assms by simp
  ultimately show ?thesis by simp
qed

lemma get_boxes_box_at:
  assumes len: "length output = grid_size * grid_size * B * 4"
    and rc: "row < grid_size" "col < grid_size" "b < B"
  shows "\<exists>boxes. get_boxes output (h_img, w_img) grid_size B = Inr boxes \<and>
           box_at boxes ((row * grid_size + col) * B + b) =
             ((output ! (((row * grid_size + col) * B + b) * 4) + real col) / real grid_size * real w_img,
              (output ! (((row * grid_size + col) * B + b) * 4 + 1) + real row) / real grid_size * real h_img,
              (output ! (((row * grid_size + col) * B + b) * 4 + 2))\<^sup>2 * real w_img,
              (output ! (((row * grid_size + col) * B + b) * 4 + 3))\<^sup>2 * real h_img)"
proof -
  let ?m = "(row * grid_size + col) * B + b"
  from get_boxes_length_ok [OF len] obtain boxes where
    gb: "get_boxes output (h_img, w_img) grid_size B = Inr boxes" by blast
  have bound: "?m * 4 + k < length output" if "k < 4" for k
    using flat_index_bound [OF rc that] len by simp
  have col: "box_col grid_size B (?m * 4 + k) = col" if "k < 4" for k
    using box_col_flat [OF rc(3) that rc(2)] .
  have row: "box_row grid_size B (?m * 4 + k) = row" if "k < 4" for k
    using box_row_flat [OF rc(3) that rc(2)] .
  have seven: "real grid_size = 7" by (simp add: grid_size_def)
  have e0: "boxes ! (4 * ?m) = (output ! (?m * 4) + real col) / real grid_size * real w_img"
    using get_boxes_nth [OF gb bound [of 0]] col [of 0] by (simp add: seven mult.commute)
  have e1: "boxes ! (4 * ?m + 1) = (output ! (?m * 4 + 1) + real row) / real grid_size * real h_img"
    using get_boxes_nth [OF gb bound [of 1]] row [of 1] by (simp add: seven mult.commute mod_Suc)
  have "(?m * 4 + 2) mod 4 = 2" by presburger
  then have e2: "boxes ! (4 * ?m + 2) = (output ! (?m * 4 + 2))\<^sup>2 * real w_img"
    using get_boxes_nth [OF gb bound [of 2]] by (simp add: mult.commute power2_eq_square)
  have "(?m * 4 + 3) mod 4 = 3" by presburger
  then have e3: "boxes ! (4 * ?m + 3) = (output ! (?m * 4 + 3))\<^sup>2 * real h_img"
    using get_boxes_nth [OF gb bound [of 3]] by (simp add: mult.commute power2_eq_square)
  show ?thesis using gb e0 e1 e2 e3 by (simp add: box_at_def)
qed

section \<open>The decoder\<close>

lemma layout_consts:
  "sc_offset = 980" "box_offset = 1078" "grid_size * grid_size * num_boxes * 4 = 392"
  "grid_size * grid_size * num_boxes * num_classes = 1960"
  by (simp_all add: sc_offset_def box_offset_def grid_size_def num_boxes_def num_classes_def)

lemma parse_yolo_output_ok:
  assumes "length output = 1470"
  shows "\<exists>boxes. get_boxes (drop box_offset output) img_size grid_size num_boxes = Inr boxes \<and>
           length boxes = 392 \<and>
           parse_yolo_output output img_size =
             (Inr (boxes, fuse_probs (take sc_offset output) (drop sc_offset (take box_offset output))),
              take box_offset output @ boxes)"
proof -
  have "length (drop box_offset output) = grid_size * grid_size * num_boxes * 4"
    using assms by (simp add: layout_consts)
  from get_boxes_length_ok [OF this, of img_size] obtain boxes where
    gb: "get_boxes (drop box_offset output) img_size grid_size num_boxes = Inr boxes"
    and len: "length boxes = length (drop box_offset output)" by blast
  have len': "length boxes = 392" using len assms by (simp add: layout_consts)
  have r1: "reshape (take sc_offset output) [grid_size, grid_size, num_classes] = Inr (take sc_offset output)"
    using assms by (simp add: reshape_def layout_consts grid_size_def num_classes_def)
  have r2: "reshape (drop sc_offset (take box_offset output)) [grid_size, grid_size, num_boxes]
             = Inr (drop sc_offset (take box_offset output))"
    using assms by (simp add: reshape_def layout_consts grid_size_def num_boxes_def)
  have "parse_yolo_output output img_size =
             (Inr (boxes, fuse_probs (take sc_offset output) (drop sc_offset (take box_offset output))),
              take box_offset output @ boxes)"
    by (simp add: parse_yolo_output_def r1 r2 gb Let_def)
  with gb len' show ?thesis by blast
qed

lemma parse_yolo_output_fail:
  assumes "length output \<noteq> 1470"
  shows "parse_yolo_output output img_size =
     (Inl (if length output < sc_offset
           then ValueError (length output) [grid_size, grid_size, num_classes]
           else if length output < box_offset
           then ValueError (length output - sc_offset) [grid_size, grid_size, num_boxes]
           else ValueError (length output - box_offset) [grid_size, grid_size, num_boxes, 4]),
      output)"
proof -
  consider "length output < 980" | "980 \<le> length output" "length output < 1078"
    | "1078 \<le> length output" by linarith
  then show ?thesis
  proof cases
    case 1
    then have "reshape (take sc_offset output) [grid_size, grid_size, num_classes]
                 = Inl (ValueError (length output) [grid_size, grid_size, num_classes])"
      by (simp add: reshape_def layout_consts grid_size_def num_classes_def)
    then show ?thesis using 1 by (simp add: parse_yolo_output_def layout_consts)
  next
    case 2
    then have "reshape (drop sc_offset (take box_offset output)) [grid_size, grid_size, num_boxes]
                 = Inl (ValueError (length output - sc_offset) [grid_size, grid_size, num_boxes])"
      by (simp add: reshape_def layout_consts grid_size_def num_boxes_def)
    moreover from 2 have "reshape (take sc_offset output) [grid_size, grid_size, num_classes]
                 = Inr (take sc_offset output)"
      by (simp add: reshape_def layout_consts grid_size_def num_classes_def)
    ultimately show ?thesis using 2 by (simp add: parse_yolo_output_def layout_consts)
  next
    case 3
    then have r1: "reshape (take sc_offset output) [grid_size, grid_size, num_classes]
                 = Inr (take sc_offset output)"
      by (simp add: reshape_def layout_consts grid_size_def num_classes_def)
    from 3 have r2: "reshape (drop sc_offset (take box_offset output)) [grid_size, grid_size, num_boxes]
                 = Inr (drop sc_offset (take box_offset output))"
      by (simp add: reshape_def layout_consts grid_size_def num_boxes_def)
    from 3 have c: "\<not> length output < sc_offset" "\<not> length output < box_offset"
      by (simp_all add: layout_consts)
    from 3 assms have "length (drop box_offset output) \<noteq> grid_size * grid_size * num_boxes * 4"
      by (simp add: layout_consts)
    then have "get_boxes (drop box_offset output) img_size grid_size num_boxes
                 = Inl (ValueError (length (drop box_offset output)) [grid_size, grid_size, num_boxes, 4])"
      by (rule get_boxes_fail)
    then have g: "get_boxes (drop box_offset output) img_size grid_size num_boxes
                 = Inl (ValueError (length output - box_offset) [grid_size, grid_size, num_boxes, 4])"
      by simp
    show ?thesis
      unfolding parse_yolo_output_def r1 r2 Let_def g using c by simp
  qed
qed

lemma fuse_probs_length: "length (fuse_probs cp cf) = 1960"
  by (simp add: fuse_probs_def layout_consts)

lemma fuse_probs_nth:
  assumes "length output = 1470" "n < 1960"
  shows "fuse_probs (take sc_offset output) (drop sc_offset (take box_offset output)) ! n
         = output ! (n div 40 * 20 + n mod 20) * output ! (980 + n div 20)"
proof -
  have d: "n div 40 = n div 20 div 2" by (simp add: div_mult2_eq [symmetric])
  have c: "n div 20 < 98" using assms(2) by simp
  have "n div 40 < 49" using assms(2) by simp
  then have a: "n div 40 * 20 + n mod 20 < 980" by simp
  have b: "n div 40 * 2 + n div 20 mod 2 = n div 20" unfolding d by simp
  show ?thesis using assms a c
    by (simp add: fuse_probs_def layout_consts num_classes_def num_boxes_def grid_size_def Let_def b)
qed

lemma zip3_map: "zip (map f xs) (zip (map g xs) (map h xs)) = map (\<lambda>x. (f x, g x, h x)) xs"
  by (induction xs) simp_all

lemma nonzero_map: "nonzero (map P xs) = filter (\<lambda>n. P (xs ! n)) [0..<length xs]"
  unfolding nonzero_def by (rule filter_cong) simp_all

lemma filtered_eq:
  "filtered boxes probs =
     map (\<lambda>n. (argmax_axis3 (map (\<lambda>p. threshold \<le> p) probs) (n div num_classes),
               box_at boxes (n div num_classes), probs ! n))
         (filter (\<lambda>n. threshold \<le> probs ! n) [0..<length probs])"
  by (simp add: filtered_def Let_def nonzero_map take_idx_def zip3_map [symmetric] comp_def)

lemma filter_upt_eq:
  assumes "sorted_wrt (<) xs" "set xs = {n. n < m \<and> P n}"
  shows "filter P [0..<m] = xs"
proof (rule sorted_distinct_set_unique)
  show "sorted (filter P [0..<m])" by (simp add: sorted_wrt_filter)
  show "distinct (filter P [0..<m])" by simp
  show "sorted xs" "distinct xs" using assms(1) by (simp_all add: strict_sorted_iff)
  show "set (filter P [0..<m]) = set xs" using assms(2) by auto
qed

lemma scenario_nth:
  "i < 1470 \<Longrightarrow> scenario_output ! i =
     (if i = 494 \<or> i = 1028 then 1 else if i = 1270 \<or> i = 1271 then 1/2
      else if i = 1272 \<or> i = 1273 then 1/10 else 0)"
  by (simp add: scenario_output_def nth_list_update)

lemma scenario_length: "length scenario_output = 1470"
  by (simp add: scenario_output_def)

section \<open>The pipeline on a well-shaped buffer\<close>

lemma is_argsort_facts:
  assumes "is_argsort argsort"
  shows "distinct (argsort xs)" "set (argsort xs) = {0..<length xs}"
    "sorted (map (\<lambda>i. xs ! i) (argsort xs))"
  using assms by (simp_all add: is_argsort_def)

lemma argsort_length:
  assumes "is_argsort argsort"
  shows "length (argsort xs) = length xs"
proof -
  have "length (argsort xs) = card (set (argsort xs))"
    using is_argsort_facts(1) [OF assms] by (simp add: distinct_card)
  then show ?thesis by (simp add: is_argsort_facts(2) [OF assms])
qed

lemma argsort_single:
  assumes "is_argsort argsort"
  shows "argsort [x] = [0]"
proof -
  have "length (argsort [x]) = 1" using argsort_length [OF assms, of "[x]"] by simp
  then obtain i where i: "argsort [x] = [i]" by (cases "argsort [x]") simp_all
  have "set (argsort [x]) = {0}" using is_argsort_facts(2) [OF assms, of "[x]"] by simp
  with i show ?thesis by simp
qed

lemma sorted_desc_single: "is_argsort argsort \<Longrightarrow> sorted_desc argsort [c] = [c]"
  by (simp add: sorted_desc_def take_idx_def argsort_single)

lemma suppressed_single: "0 < p \<Longrightarrow> suppressed [(cid, bx, p)] = [(cid, bx, p)]"
  by (simp add: suppressed_def nms_def nms_inner_def)

lemma get_candidate_objects_ok:
  assumes "length output = 1470"
  shows "\<exists>boxes. get_boxes (drop box_offset output) img_size grid_size num_boxes = Inr boxes \<and>
           length boxes = 392 \<and>
           get_candidate_objects argsort output img_size =
             (Inr (map mk_result (suppressed (sorted_desc argsort (filtered boxes
                (fuse_probs (take sc_offset output) (drop sc_offset (take box_offset output))))))),
              take box_offset output @ boxes)"
proof -
  from parse_yolo_output_ok [OF assms, of img_size] obtain boxes where
    b: "get_boxes (drop box_offset output) img_size grid_size num_boxes = Inr boxes"
       "length boxes = 392"
       "parse_yolo_output output img_size =
             (Inr (boxes, fuse_probs (take sc_offset output) (drop sc_offset (take box_offset output))),
              take box_offset output @ boxes)" by blast
  then show ?thesis by (simp add: get_candidate_objects_def)
qed

lemma scenario_probs:
  assumes "n < 1960"
  shows "fuse_probs (take sc_offset scenario_output) (drop sc_offset (take box_offset scenario_output)) ! n
         = (if n = 974 then 1 else 0)"
proof -
  have d: "n div 40 = n div 20 div 2" by (simp add: div_mult2_eq [symmetric])
  have c: "n div 20 < 98" using assms by simp
  have "n div 40 < 49" using assms by simp
  then have a: "n div 40 * 20 + n mod 20 < 980" by simp
  have n: "n = n div 20 * 20 + n mod 20" by simp
  have e1: "scenario_output ! (980 + n div 20) = (if n div 20 = 48 then 1 else 0)"
    using c by (simp add: scenario_nth)
  have e2: "scenario_output ! (n div 40 * 20 + n mod 20) = (if n div 40 * 20 + n mod 20 = 494 then 1 else 0)"
    using a by (simp add: scenario_nth)
  have "(n div 20 = 48 \<and> n div 40 * 20 + n mod 20 = 494) = (n = 974)"
  proof
    assume h: "n div 20 = 48 \<and> n div 40 * 20 + n mod 20 = 494"
    then have "n div 40 = 24" using d by simp
    with h have "n mod 20 = 14" by simp
    with h n show "n = 974" by simp
  next
    assume "n = 974" then show "n div 20 = 48 \<and> n div 40 * 20 + n mod 20 = 494" by simp
  qed
  then show ?thesis
    unfolding fuse_probs_nth [OF scenario_length assms] e1 e2 by auto
qed

section \<open>Intersection over union\<close>

lemma iou_intersection_commute: "iou_intersection a b = iou_intersection b a"
proof -
  obtain x1 y1 w1 h1 where a: "a = (x1, y1, w1, h1)" by (cases a)
  obtain x2 y2 w2 h2 where b: "b = (x2, y2, w2, h2)" by (cases b)
  have "min (x1 + 0.5 * w1) (x2 + 0.5 * w2) = min (x2 + 0.5 * w2) (x1 + 0.5 * w1)"
       "max (x1 - 0.5 * w1) (x2 - 0.5 * w2) = max (x2 - 0.5 * w2) (x1 - 0.5 * w1)"
       "min (y1 + 0.5 * h1) (y2 + 0.5 * h2) = min (y2 + 0.5 * h2) (y1 + 0.5 * h1)"
       "max (y1 - 0.5 * h1) (y2 - 0.5 * h2) = max (y2 - 0.5 * h2) (y1 - 0.5 * h1)"
    by (rule min.commute max.commute)+
  then show ?thesis unfolding a b iou_intersection_def Let_def by (simp only: prod.case)
qed

lemma iou_union_commute: "iou_union a b = iou_union b a"
proof -
  obtain x1 y1 w1 h1 where a: "a = (x1, y1, w1, h1)" by (cases a)
  obtain x2 y2 w2 h2 where b: "b = (x2, y2, w2, h2)" by (cases b)
  show ?thesis
    unfolding a b iou_union_def
    by (simp add: iou_intersection_commute [of "(x1, y1, w1, h1)" "(x2, y2, w2, h2)"])
qed

lemma iou_commute: "iou a b = iou b a"
  by (simp add: iou_def iou_intersection_commute [of a b] iou_union_commute [of a b])

lemma iou_finite: "iou_union a b \<noteq> 0 \<Longrightarrow> iou a b = Finite (iou_intersection a b / iou_union a b)"
  by (simp add: iou_def np_divide_def)

lemma iou_intersection_nonneg: "0 \<le> iou_intersection a b"
  by (cases a, cases b) (simp add: iou_intersection_def Let_def)

lemma iou_intersection_le:
  assumes "0 < iou_intersection (x1, y1, w1, h1) (x2, y2, w2, h2)"
  shows "iou_intersection (x1, y1, w1, h1) (x2, y2, w2, h2) \<le> w1 * h1 \<and> 0 < w2 * h2"
proof -
  define tb where "tb = min (x1 + 0.5 * w1) (x2 + 0.5 * w2) - max (x1 - 0.5 * w1) (x2 - 0.5 * w2)"
  define lr where "lr = min (y1 + 0.5 * h1) (y2 + 0.5 * h2) - max (y1 - 0.5 * h1) (y2 - 0.5 * h2)"
  have I: "iou_intersection (x1, y1, w1, h1) (x2, y2, w2, h2) = max 0 tb * max 0 lr"
    by (simp add: iou_intersection_def Let_def tb_def lr_def)
  have b: "tb \<le> w1" "tb \<le> w2" "lr \<le> h1" "lr \<le> h2"
    unfolding tb_def lr_def by (simp_all add: min_def max_def)
  from assms have pos: "0 < tb" "0 < lr"
    unfolding I by (auto simp add: zero_less_mult_iff max_def split: if_splits)
  then have "max 0 tb * max 0 lr = tb * lr" by simp
  moreover have "tb * lr \<le> w1 * h1" using b pos by (intro mult_mono) simp_all
  moreover have "0 < w2 * h2" using b pos by (intro mult_pos_pos) simp_all
  ultimately show ?thesis unfolding I by simp
qed

lemma iou_union_zero_intersection:
  assumes "iou_union a b = 0"
  shows "iou_intersection a b = 0"
proof (rule ccontr)
  assume "iou_intersection a b \<noteq> 0"
  then have pos: "0 < iou_intersection a b" using iou_intersection_nonneg [of a b] by simp
  obtain x1 y1 w1 h1 where a: "a = (x1, y1, w1, h1)" by (cases a)
  obtain x2 y2 w2 h2 where b: "b = (x2, y2, w2, h2)" by (cases b)
  from iou_intersection_le [of x1 y1 w1 h1 x2 y2 w2 h2] pos
  have "iou_intersection a b \<le> w1 * h1" "0 < w2 * h2" by (simp_all add: a b)
  then have "0 < iou_union a b" by (simp add: iou_union_def a b)
  with assms show False by simp
qed

lemma iou_degenerate:
  assumes "iou_union a b = 0"
  shows "iou a b = NaN"
  using assms iou_union_zero_intersection [OF assms] by (simp add: iou_def np_divide_def)

section \<open>The suppression loops\<close>

text \<open>One pass of the inner loop, entry by entry.\<close>

lemma foldl_zero_length:
  "length (foldl (\<lambda>ps j. if P j then ps[j := 0 :: real] else ps) ps js) = length ps"
  by (induction js arbitrary: ps) simp_all

lemma foldl_zero_nth:
  "k < length ps \<Longrightarrow>
   foldl (\<lambda>ps j. if P j then ps[j := 0 :: real] else ps) ps js ! k
     = (if k \<in> set js \<and> P k then 0 else ps ! k)"
proof (induction js arbitrary: ps)
  case Nil
  then show ?case by simp
next
  case (Cons j js)
  have upd: "ps[j := 0] ! k = (if j = k then 0 else ps ! k)"
    using Cons.prems by (cases "j < length ps") (simp_all add: nth_list_update)
  show ?case using Cons.prems by (auto simp add: Cons.IH upd)
qed

lemma nms_inner_length: "length (nms_inner boxes i ps) = length ps"
  unfolding nms_inner_def by (rule foldl_zero_length)

lemma nms_inner_nth:
  assumes "k < length ps"
  shows "nms_inner boxes i ps ! k =
     (if i < k \<and> k < length boxes \<and> np_greater (iou (boxes ! i) (boxes ! k)) iou_threshold
      then 0 else ps ! k)"
  unfolding nms_inner_def foldl_zero_nth [OF assms] by auto

text \<open>The outer loop after its first \<open>m\<close> rounds.\<close>

lemma nms_upto_0: "nms_upto boxes ps 0 = ps"
  by (simp add: nms_upto_def)

lemma nms_upto_Suc:
  "nms_upto boxes ps (Suc m) =
     (if nms_upto boxes ps m ! m = 0 then nms_upto boxes ps m
      else nms_inner boxes m (nms_upto boxes ps m))"
  by (simp add: nms_upto_def)

lemma nms_eq_upto: "nms boxes ps = nms_upto boxes ps (length boxes)"
  by (simp add: nms_def nms_upto_def)

lemma nms_upto_length: "length (nms_upto boxes ps m) = length ps"
  by (induction m) (simp_all add: nms_upto_0 nms_upto_Suc nms_inner_length)

lemma nms_upto_keep_or_zero:
  "k < length ps \<Longrightarrow> nms_upto boxes ps m ! k = ps ! k \<or> nms_upto boxes ps m ! k = 0"
  by (induction m) (auto simp add: nms_upto_0 nms_upto_Suc nms_inner_nth nms_upto_length)

lemma nms_upto_zero_stays:
  "k < length ps \<Longrightarrow> nms_upto boxes ps m ! k = 0 \<Longrightarrow> nms_upto boxes ps (m + d) ! k = 0"
  by (induction d) (auto simp add: nms_upto_Suc nms_inner_nth nms_upto_length)

lemma nms_upto_untouched:
  "k < length ps \<Longrightarrow> nms_upto boxes ps (k + d) ! k = nms_upto boxes ps k ! k"
  by (induction d) (auto simp add: nms_upto_Suc nms_inner_nth nms_upto_length)

lemma nms_length: "length (nms boxes ps) = length ps"
  by (simp add: nms_eq_upto nms_upto_length)

lemma nms_keep_or_zero: "k < length ps \<Longrightarrow> nms boxes ps ! k = ps ! k \<or> nms boxes ps ! k = 0"
  by (simp add: nms_eq_upto nms_upto_keep_or_zero)

lemma nms_suppresses:
  assumes "p < q" "q < length boxes" "length ps = length boxes"
    and over: "np_greater (iou (boxes ! p) (boxes ! q)) iou_threshold"
    and alive: "nms boxes ps ! p \<noteq> 0"
  shows "nms boxes ps ! q = 0"
proof -
  let ?n = "length boxes"
  have p: "p < length ps" and q: "q < length ps" using assms by simp_all
  have "p + (?n - p) = ?n" using assms by simp
  with nms_upto_untouched [OF p, of boxes "?n - p"]
  have "nms boxes ps ! p = nms_upto boxes ps p ! p" by (simp add: nms_eq_upto)
  with alive have "nms_upto boxes ps p ! p \<noteq> 0" by simp
  then have "nms_upto boxes ps (Suc p) ! q = 0"
    using assms q by (simp add: nms_upto_Suc nms_inner_nth nms_upto_length)
  then have "nms_upto boxes ps (Suc p + (?n - Suc p)) ! q = 0"
    by (rule nms_upto_zero_stays [OF q])
  moreover have "Suc p + (?n - Suc p) = ?n" using assms by simp
  ultimately show ?thesis by (simp only: nms_eq_upto)
qed

section \<open>Sorting and the surviving candidates\<close>

lemma sorted_desc_length:
  "is_argsort argsort \<Longrightarrow> length (sorted_desc argsort cs) = length cs"
  by (simp add: sorted_desc_def take_idx_def argsort_length)

lemma sorted_desc_set:
  assumes "is_argsort argsort"
  shows "set (sorted_desc argsort cs) = set cs"
proof -
  have "set (sorted_desc argsort cs) = (\<lambda>i. cs ! i) ` {0..<length cs}"
    by (simp add: sorted_desc_def take_idx_def is_argsort_facts(2) [OF assms])
  also have "\<dots> = set cs" by (auto simp add: set_conv_nth)
  finally show ?thesis .
qed

lemma sorted_desc_scores:
  assumes "is_argsort argsort"
  shows "map (\<lambda>t. snd (snd t)) (sorted_desc argsort cs) =
     rev (map (\<lambda>i. map (\<lambda>t. snd (snd t)) cs ! i) (argsort (map (\<lambda>t. snd (snd t)) cs)))"
proof -
  let ?xs = "map (\<lambda>t. snd (snd t)) cs"
  have "map (\<lambda>t. snd (snd t)) (map (\<lambda>i. cs ! i) (argsort ?xs)) = map (\<lambda>i. ?xs ! i) (argsort ?xs)"
    unfolding map_map by (rule map_cong) (simp_all add: is_argsort_facts(2) [OF assms])
  then show ?thesis by (simp add: sorted_desc_def take_idx_def rev_map)
qed

lemma sorted_desc_descending:
  assumes "is_argsort argsort"
  shows "sorted_wrt (\<lambda>s t. snd (snd t) \<le> snd (snd s)) (sorted_desc argsort cs)"
proof -
  have "sorted_wrt (\<lambda>a b. b \<le> a) (map (\<lambda>t. snd (snd t)) (sorted_desc argsort cs))"
    unfolding sorted_desc_scores [OF assms] sorted_wrt_rev
    using is_argsort_facts(3) [OF assms] by simp
  then show ?thesis by (simp add: sorted_wrt_map)
qed

lemma subseq_set_subset: "subseq xs ys \<Longrightarrow> set xs \<subseteq> set ys"
  by (auto elim: list_emb_set)

lemma sorted_wrt_subseq:
  assumes "subseq xs ys" "sorted_wrt R ys"
  shows "sorted_wrt R xs"
  using assms
proof (induction rule: list_emb.induct)
  case (list_emb_Nil ys)
  then show ?case by simp
next
  case (list_emb_Cons xs ys y)
  then show ?case by simp
next
  case (list_emb_Cons2 x y xs ys)
  then have "set xs \<subseteq> set ys" by (simp add: subseq_set_subset)
  with list_emb_Cons2 show ?case by auto
qed

lemma keep_positive_subseq:
  fixes cs :: "(nat \<times> box \<times> real) list"
  assumes "list_all2 (\<lambda>p' t. p' = snd (snd t) \<or> p' = 0) ps cs"
  shows "subseq (filter (\<lambda>t. 0 < snd (snd t))
                  (zip (map fst cs) (zip (map (\<lambda>t. fst (snd t)) cs) ps))) cs"
  using assms
proof (induction rule: list_all2_induct)
  case Nil
  then show ?case by simp
next
  case (Cons p ps t cs)
  then show ?case by (cases t) auto
qed

lemma suppressed_subseq: "subseq (suppressed cs) cs"
proof -
  let ?boxes = "map (\<lambda>t. fst (snd t)) cs"
  let ?ps = "nms ?boxes (map (\<lambda>t. snd (snd t)) cs)"
  have "list_all2 (\<lambda>p' t. p' = snd (snd t) \<or> p' = 0) ?ps cs"
    unfolding list_all2_conv_all_nth
  proof (intro conjI allI impI)
    show "length ?ps = length cs" by (simp add: nms_length)
  next
    fix k assume "k < length ?ps"
    then have k: "k < length (map (\<lambda>t. snd (snd t)) cs)" by (simp add: nms_length)
    from nms_keep_or_zero [OF k, of ?boxes] k
    show "?ps ! k = snd (snd (cs ! k)) \<or> ?ps ! k = 0" by simp
  qed
  then show ?thesis unfolding suppressed_def Let_def by (rule keep_positive_subseq)
qed

lemma det_score_mk_result: "det_score (mk_result t) = snd (snd t)"
  by (cases t) (simp add: det_score_def mk_result_def split: prod.splits)

lemma results_sorted:
  assumes "is_argsort argsort"
  shows "sorted_wrt (\<lambda>d e. det_score e \<le> det_score d)
           (map mk_result (suppressed (sorted_desc argsort cs)))"
proof -
  have "sorted_wrt (\<lambda>s t. snd (snd t) \<le> snd (snd s)) (suppressed (sorted_desc argsort cs))"
    using suppressed_subseq sorted_desc_descending [OF assms] by (rule sorted_wrt_subseq)
  then show ?thesis by (simp add: sorted_wrt_map det_score_mk_result)
qed

lemma get_candidate_objects_Inr:
  assumes "get_candidate_objects argsort output img_size = (Inr dets, buf)"
  shows "\<exists>boxes probs. parse_yolo_output output img_size = (Inr (boxes, probs), buf) \<and>
           dets = map mk_result (suppressed (sorted_desc argsort (filtered boxes probs)))"
  using assms unfolding get_candidate_objects_def
  by (auto split: prod.splits sum.splits)

section \<open>The places of two candidates in the sorted order\<close>

lemma insertion_argsort_ok: "is_argsort insertion_argsort"
  unfolding is_argsort_def insertion_argsort_def
  by (intro allI conjI) (simp_all add: sorted_sort_key)

lemma rev_argsort_places:
  assumes "is_argsort argsort" "a < b" "b < length xs"
  shows "\<exists>p q. p < length xs \<and> q < length xs \<and> p \<noteq> q \<and>
           rev (argsort xs) ! p = a \<and> rev (argsort xs) ! q = b"
proof -
  let ?idx = "rev (argsort xs)"
  have len: "length ?idx = length xs" by (simp add: argsort_length [OF assms(1)])
  have ab: "a \<in> set ?idx" "b \<in> set ?idx"
    using assms by (simp_all add: is_argsort_facts(2) [OF assms(1)])
  from ab(1) obtain p where p: "p < length ?idx" "?idx ! p = a"
    unfolding in_set_conv_nth by blast
  from ab(2) obtain q where q: "q < length ?idx" "?idx ! q = b"
    unfolding in_set_conv_nth by blast
  have "p \<noteq> q" using p q assms by auto
  with p q len show ?thesis by auto
qed

lemma sorted_desc_nth:
  assumes "is_argsort argsort" "k < length cs"
  shows "sorted_desc argsort cs ! k = cs ! (rev (argsort (map (\<lambda>t. snd (snd t)) cs)) ! k)"
  using assms by (simp add: sorted_desc_def take_idx_def argsort_length)

section \<open>Evaluating the score tensor\<close>

lemma probs_index:
  fixes n :: nat
  assumes "n < 1960"
  shows "\<exists>q r. n = 20 * q + r \<and> r < 20 \<and> q < 98"
proof (intro exI conjI)
  show "n = 20 * (n div 20) + n mod 20" by simp
  show "n mod 20 < 20" by simp
  show "n div 20 < 98" using assms by simp
qed

lemma qr_bound:
  fixes q r :: nat
  assumes "q < 98" "r < 20"
  shows "(q div 2) * 20 + r < 980"
proof -
  have "q div 2 < 49" using assms(1) by simp
  then show ?thesis using assms(2) by simp
qed

lemma qr_eq:
  fixes q r q' r' :: nat
  assumes "r < 20" "r' < 20"
  shows "(20 * q + r = 20 * q' + r') = (q = q' \<and> r = r')"
proof
  assume e: "20 * q + r = 20 * q' + r'"
  then have "(20 * q + r) div 20 = (20 * q' + r') div 20" by simp
  then have "q = q'" using assms by simp
  with e show "q = q' \<and> r = r'" by simp
next
  assume "q = q' \<and> r = r'" then show "20 * q + r = 20 * q' + r'" by simp
qed

lemma fuse_probs_qr:
  fixes q r :: nat
  assumes "length output = 1470" "q < 98" "r < 20"
  shows "fuse_probs (take sc_offset output) (drop sc_offset (take box_offset output)) ! (20 * q + r)
         = output ! ((q div 2) * 20 + r) * output ! (980 + q)"
proof -
  have n: "20 * q + r < 1960" using assms by simp
  have "(20 * q + r) div 20 = q" using assms by simp
  moreover have "(20 * q + r) mod 20 = r" using assms by simp
  moreover have "(20 * q + r) div 40 = q div 2"
    using assms by (simp add: div_mult2_eq [of _ 20 2, simplified])
  ultimately show ?thesis using fuse_probs_nth [OF assms(1) n] by simp
qed

lemma two_class_length: "length two_class_output = 1470"
  by (simp add: two_class_output_def)

lemma two_class_nth:
  "i < 1470 \<Longrightarrow> two_class_output ! i =
     (if i = 0 then 1/2 else if i = 1 \<or> i = 980 then 1
      else if i = 1078 \<or> i = 1079 then 1/2
      else if i = 1080 \<or> i = 1081 then 1/10 else 0)"
  by (simp add: two_class_output_def nth_list_update)

lemma two_class_probs:
  assumes "n < 1960"
  shows "fuse_probs (take sc_offset two_class_output) (drop sc_offset (take box_offset two_class_output)) ! n
         = (if n = 0 then 1/2 else if n = 1 then 1 else 0)"
proof -
  from probs_index [OF assms] obtain q r where
    n: "n = 20 * q + r" and r: "r < 20" and q: "q < 98" by blast
  note a = qr_bound [OF q r]
  have c1: "(20 * q + r = 1) = (q = 0 \<and> r = 1)" using qr_eq [of r 1 q 0] r by simp
  have e1: "two_class_output ! (980 + q) = (if q = 0 then 1 else 0)"
    using q by (simp add: two_class_nth)
  have e2: "q = 0 \<Longrightarrow> two_class_output ! (q div 2 * 20 + r) = (if r = 0 then 1/2 else if r = 1 then 1 else 0)"
    using r by (simp add: two_class_nth)
  show ?thesis
    unfolding n fuse_probs_qr [OF two_class_length q r] c1 e1
    using e2 by (cases "q = 0") simp_all
qed

lemma tie_length: "length tie_output = 1470"
  by (simp add: tie_output_def)

lemma tie_nth:
  "i < 1470 \<Longrightarrow> tie_output ! i =
     (if i = 0 \<or> i = 980 \<or> i = 981 then 1
      else if i = 1080 then 2/5
      else if 1078 \<le> i \<and> i \<le> 1085 then 1/2 else 0)"
  by (simp add: tie_output_def nth_list_update)

lemma tie_probs:
  assumes "n < 1960"
  shows "fuse_probs (take sc_offset tie_output) (drop sc_offset (take box_offset tie_output)) ! n
         = (if n = 0 \<or> n = 20 then 1 else 0)"
proof -
  from probs_index [OF assms] obtain q r where
    n: "n = 20 * q + r" and r: "r < 20" and q: "q < 98" by blast
  have c1: "(20 * q + r = 20) = (q = 1 \<and> r = 0)" using qr_eq [of r 0 q 1] r by simp
  have e1: "tie_output ! (980 + q) = (if q = 0 \<or> q = 1 then 1 else 0)"
    using q by (simp add: tie_nth)
  have e2: "q = 0 \<or> q = 1 \<Longrightarrow> tie_output ! (q div 2 * 20 + r) = (if r = 0 then 1 else 0)"
    using r by (auto simp add: tie_nth)
  show ?thesis
    unfolding n fuse_probs_qr [OF tie_length q r] c1 e1
    using e2 by (cases "q = 0 \<or> q = 1") auto
qed

lemma two_objects_length: "length two_objects_output = 1470"
  by (simp add: two_objects_output_def)

lemma two_objects_nth:
  "i < 1470 \<Longrightarrow> two_objects_output ! i =
     (if i = 980 \<or> i = 979 \<or> i = 1077 then 1
      else if i = 0 \<or> i = 1078 \<or> i = 1079 \<or> i = 1466 \<or> i = 1467 then 1/2
      else if i = 1080 \<or> i = 1081 \<or> i = 1468 \<or> i = 1469 then 1/10 else 0)"
  by (simp add: two_objects_output_def nth_list_update)

lemma two_objects_probs:
  assumes "n < 1960"
  shows "fuse_probs (take sc_offset two_objects_output)
           (drop sc_offset (take box_offset two_objects_output)) ! n
         = (if n = 0 then 1/2 else if n = 1959 then 1 else 0)"
proof -
  from probs_index [OF assms] obtain q r where
    n: "n = 20 * q + r" and r: "r < 20" and q: "q < 98" by blast
  have c1: "(20 * q + r = 1959) = (q = 97 \<and> r = 19)" using qr_eq [of r 19 q 97] r by simp
  have e1: "two_objects_output ! (980 + q) = (if q = 0 \<or> q = 97 then 1 else 0)"
    using q by (simp add: two_objects_nth)
  have e2: "q = 0 \<Longrightarrow> two_objects_output ! (q div 2 * 20 + r) = (if r = 0 then 1/2 else 0)"
    using r by (simp add: two_objects_nth)
  have e3: "q = 97 \<Longrightarrow> two_objects_output ! (q div 2 * 20 + r) = (if r = 19 then 1 else 0)"
    using r by (simp add: two_objects_nth)
  show ?thesis
    unfolding n fuse_probs_qr [OF two_objects_length q r] c1 e1
    using e2 e3 by (cases "q = 0 \<or> q = 97") auto
qed

section \<open>Short candidate lists\<close>

lemma upt_0_2: "[0..<2] = [0, Suc 0]"
  by (simp add: upt_rec)

lemma length_two:
  assumes "length l = 2"
  obtains i j where "l = [i, j]"
proof (cases l)
  case Nil
  with assms show ?thesis by simp
next
  case (Cons i l')
  then have "length l' = 1" using assms by simp
  then obtain j where "l' = [j]" by (cases l') simp_all
  with Cons that show ?thesis by simp
qed

lemma argsort_pair:
  assumes "is_argsort argsort" "x0 < x1"
  shows "argsort [x0, x1] = [0, 1]"
proof -
  have "length (argsort [x0, x1]) = 2" using argsort_length [OF assms(1), of "[x0, x1]"] by simp
  then obtain i j where ij: "argsort [x0, x1] = [i, j]" by (rule length_two)
  have d: "i \<noteq> j" using is_argsort_facts(1) [OF assms(1), of "[x0, x1]"] ij by simp
  have o: "[x0, x1] ! i \<le> [x0, x1] ! j"
    using is_argsort_facts(3) [OF assms(1), of "[x0, x1]"] ij by simp
  have "i \<in> set (argsort [x0, x1])" "j \<in> set (argsort [x0, x1])" using ij by simp_all
  then have "i < length [x0, x1]" "j < length [x0, x1]"
    unfolding is_argsort_facts(2) [OF assms(1)] by simp_all
  then have b: "i < 2" "j < 2" by simp_all
  show ?thesis
  proof (cases "i = 0")
    case True
    with d b have "j = 1" by simp
    with True ij show ?thesis by simp
  next
    case False
    with b have i: "i = 1" by simp
    with d b have "j = 0" by simp
    with i o assms(2) show ?thesis by simp
  qed
qed

lemma sorted_desc_pair:
  assumes "is_argsort argsort" "snd (snd c0) < snd (snd c1)"
  shows "sorted_desc argsort [c0, c1] = [c1, c0]"
  by (simp add: sorted_desc_def take_idx_def argsort_pair [OF assms])

lemma insertion_argsort_tie: "insertion_argsort [x, x] = [0, 1]"
  by (simp add: insertion_argsort_def upt_0_2)

lemma sorted_desc_tie: "sorted_desc insertion_argsort [(k0, b0, p), (k1, b1, p)] = [(k1, b1, p), (k0, b0, p)]"
  by (simp add: sorted_desc_def take_idx_def insertion_argsort_tie)

lemma nms_pair:
  "p0 \<noteq> 0 \<Longrightarrow> nms [b0, b1] [p0, p1] =
     (if np_greater (iou b0 b1) iou_threshold then [p0, 0] else [p0, p1])"
  by (simp add: nms_def nms_inner_def upt_0_2 upt_rec)

lemma suppressed_pair:
  assumes "0 < p0" "0 < p1"
  shows "suppressed [(k0, b0, p0), (k1, b1, p1)] =
     (if np_greater (iou b0 b1) iou_threshold then [(k0, b0, p0)]
      else [(k0, b0, p0), (k1, b1, p1)])"
  using assms by (simp add: suppressed_def nms_pair)

lemma candidates_eq:
  assumes "length output = 1470"
    and "get_boxes (drop box_offset output) img_size grid_size num_boxes = Inr boxes"
  shows "candidates output img_size =
           filtered boxes (fuse_probs (take sc_offset output) (drop sc_offset (take box_offset output)))"
  using parse_yolo_output_ok [OF assms(1), of img_size] assms(2)
  by (auto simp add: candidates_def)

lemma get_candidate_objects_eq:
  assumes "length output = 1470"
    and "get_boxes (drop box_offset output) img_size grid_size num_boxes = Inr boxes"
  shows "get_candidate_objects argsort output img_size =
           (Inr (map mk_result (suppressed (sorted_desc argsort (candidates output img_size)))),
            take box_offset output @ boxes)"
  using get_candidate_objects_ok [OF assms(1), of img_size argsort] assms(2)
  by (auto simp add: candidates_eq [OF assms])

lemma argmax_axis3_first:
  assumes "k < num_classes" "flags ! (m * num_classes + k)"
    and "\<forall>j<k. \<not> flags ! (m * num_classes + j)"
  shows "argmax_axis3 flags m = k"
proof -
  have "find (\<lambda>k. flags ! (m * num_classes + k)) [0..<num_classes] = Some k"
    unfolding find_Some_iff using assms by (intro exI [of _ k]) simp
  then show ?thesis by (simp add: argmax_axis3_def)
qed

lemma two_class_candidates:
  "candidates two_class_output (700, 700) = [(0, (50, 50, 7, 7), 1/2), (0, (50, 50, 7, 7), 1)]"
proof -
  let ?probs = "fuse_probs (take sc_offset two_class_output) (drop sc_offset (take box_offset two_class_output))"
  have len: "length (drop box_offset two_class_output) = grid_size * grid_size * num_boxes * 4"
    by (simp add: two_class_length layout_consts)
  from get_boxes_length_ok [OF len, of "(700, 700)"] obtain boxes where
    gb: "get_boxes (drop box_offset two_class_output) (700, 700) grid_size num_boxes = Inr boxes"
    by blast
  have "0 < grid_size" "0 < num_boxes" by (simp_all add: grid_size_def num_boxes_def)
  from get_boxes_box_at [OF len this(1) this(1) this(2), of 700 700] gb
  have bx: "box_at boxes 0 = (50, 50, 7, 7)"
    by (simp add: grid_size_def num_boxes_def layout_consts two_class_length two_class_nth
        power2_eq_square)
  have cand: "filter (\<lambda>n. threshold \<le> ?probs ! n) [0..<1960] = [0, 1]"
    by (rule filter_upt_eq) (auto simp add: two_class_probs threshold_def split: if_splits)
  have am: "argmax_axis3 (map (\<lambda>p. threshold \<le> p) ?probs) 0 = 0"
    by (rule argmax_axis3_first)
      (simp_all add: num_classes_def fuse_probs_length two_class_probs threshold_def)
  have "filtered boxes ?probs = [(0, (50, 50, 7, 7), 1/2), (0, (50, 50, 7, 7), 1)]"
    by (simp add: filtered_eq fuse_probs_length cand num_classes_def am bx two_class_probs)
  then show ?thesis by (simp add: candidates_eq [OF two_class_length gb])
qed

lemma iou_same_box: "iou (50, 50, 7, 7) (50, 50, 7, 7) = Finite 1"
  by (simp add: iou_def np_divide_def iou_union_def iou_intersection_def)

lemma two_class_result:
  assumes "is_argsort argsort"
  shows "fst (get_candidate_objects argsort two_class_output (700, 700))
           = Inr [(''aeroplane'', 50, 50, 7, 7, 1)]"
proof -
  have len: "length (drop box_offset two_class_output) = grid_size * grid_size * num_boxes * 4"
    by (simp add: two_class_length layout_consts)
  from get_boxes_length_ok [OF len, of "(700, 700)"] obtain boxes where
    gb: "get_boxes (drop box_offset two_class_output) (700, 700) grid_size num_boxes = Inr boxes"
    by blast
  show ?thesis
    unfolding get_candidate_objects_eq [OF two_class_length gb] two_class_candidates
    by (simp add: sorted_desc_pair [OF assms] suppressed_pair iou_same_box iou_threshold_def
        mk_result_def classes_def)
qed

section \<open>The other concrete inputs\<close>

lemma tie_candidates:
  "candidates tie_output (700, 700) = [(0, (50, 50, 112, 175), 1), (0, (50, 50, 175, 175), 1)]"
proof -
  let ?probs = "fuse_probs (take sc_offset tie_output) (drop sc_offset (take box_offset tie_output))"
  have len: "length (drop box_offset tie_output) = grid_size * grid_size * num_boxes * 4"
    by (simp add: tie_length layout_consts)
  from get_boxes_length_ok [OF len, of "(700, 700)"] obtain boxes where
    gb: "get_boxes (drop box_offset tie_output) (700, 700) grid_size num_boxes = Inr boxes"
    by blast
  have g: "0 < grid_size" and b0: "0 < num_boxes" and b1: "1 < num_boxes"
    by (simp_all add: grid_size_def num_boxes_def)
  from get_boxes_box_at [OF len g g b0, of 700 700] gb
  have bx0: "box_at boxes 0 = (50, 50, 112, 175)"
    by (simp add: grid_size_def num_boxes_def layout_consts tie_length tie_nth power2_eq_square)
  from get_boxes_box_at [OF len g g b1, of 700 700] gb
  have bx1: "box_at boxes (Suc 0) = (50, 50, 175, 175)"
    by (simp add: grid_size_def num_boxes_def layout_consts tie_length tie_nth power2_eq_square)
  have cand: "filter (\<lambda>n. threshold \<le> ?probs ! n) [0..<1960] = [0, 20]"
    by (rule filter_upt_eq) (auto simp add: tie_probs threshold_def split: if_splits)
  have am0: "argmax_axis3 (map (\<lambda>p. threshold \<le> p) ?probs) 0 = 0"
    by (rule argmax_axis3_first)
      (simp_all add: num_classes_def fuse_probs_length tie_probs threshold_def)
  have am1: "argmax_axis3 (map (\<lambda>p. threshold \<le> p) ?probs) (Suc 0) = 0"
    by (rule argmax_axis3_first)
      (simp_all add: num_classes_def fuse_probs_length tie_probs threshold_def)
  have "filtered boxes ?probs = [(0, (50, 50, 112, 175), 1), (0, (50, 50, 175, 175), 1)]"
    by (simp add: filtered_eq fuse_probs_length cand num_classes_def am0 am1 bx0 bx1 tie_probs)
  then show ?thesis by (simp add: candidates_eq [OF tie_length gb])
qed

lemma tie_iou: "iou (50, 50, 112, 175) (50, 50, 175, 175) = Finite (16/25)"
  by (simp add: iou_def np_divide_def iou_union_def iou_intersection_def)

lemma tie_iou': "iou (50, 50, 175, 175) (50, 50, 112, 175) = Finite (16/25)"
  by (simp add: iou_def np_divide_def iou_union_def iou_intersection_def)

lemma tie_result:
  "fst (get_candidate_objects insertion_argsort tie_output (700, 700))
     = Inr [(''aeroplane'', 50, 50, 175, 175, 1)]"
proof -
  have len: "length (drop box_offset tie_output) = grid_size * grid_size * num_boxes * 4"
    by (simp add: tie_length layout_consts)
  from get_boxes_length_ok [OF len, of "(700, 700)"] obtain boxes where
    gb: "get_boxes (drop box_offset tie_output) (700, 700) grid_size num_boxes = Inr boxes"
    by blast
  show ?thesis
    unfolding get_candidate_objects_eq [OF tie_length gb] tie_candidates
    by (simp add: sorted_desc_tie suppressed_pair tie_iou' iou_threshold_def
        mk_result_def classes_def)
qed

lemma two_objects_candidates:
  "candidates two_objects_output (700, 700) =
     [(0, (50, 50, 7, 7), 1/2), (19, (650, 650, 7, 7), 1)]"
proof -
  let ?probs = "fuse_probs (take sc_offset two_objects_output)
                  (drop sc_offset (take box_offset two_objects_output))"
  have len: "length (drop box_offset two_objects_output) = grid_size * grid_size * num_boxes * 4"
    by (simp add: two_objects_length layout_consts)
  from get_boxes_length_ok [OF len, of "(700, 700)"] obtain boxes where
    gb: "get_boxes (drop box_offset two_objects_output) (700, 700) grid_size num_boxes = Inr boxes"
    by blast
  have g0: "0 < grid_size" and g6: "6 < grid_size" and b0: "0 < num_boxes" and b1: "1 < num_boxes"
    by (simp_all add: grid_size_def num_boxes_def)
  from get_boxes_box_at [OF len g0 g0 b0, of 700 700] gb
  have bx0: "box_at boxes 0 = (50, 50, 7, 7)"
    by (simp add: grid_size_def num_boxes_def layout_consts two_objects_length two_objects_nth
        power2_eq_square)
  from get_boxes_box_at [OF len g6 g6 b1, of 700 700] gb
  have bx1: "box_at boxes 97 = (650, 650, 7, 7)"
    by (simp add: grid_size_def num_boxes_def layout_consts two_objects_length two_objects_nth
        power2_eq_square)
  have cand: "filter (\<lambda>n. threshold \<le> ?probs ! n) [0..<1960] = [0, 1959]"
    by (rule filter_upt_eq) (auto simp add: two_objects_probs threshold_def split: if_splits)
  have am0: "argmax_axis3 (map (\<lambda>p. threshold \<le> p) ?probs) 0 = 0"
    by (rule argmax_axis3_first)
      (simp_all add: num_classes_def fuse_probs_length two_objects_probs threshold_def)
  have am1: "argmax_axis3 (map (\<lambda>p. threshold \<le> p) ?probs) 97 = 19"
    by (rule argmax_axis3_first)
      (simp_all add: num_classes_def fuse_probs_length two_objects_probs threshold_def)
  have "filtered boxes ?probs = [(0, (50, 50, 7, 7), 1/2), (19, (650, 650, 7, 7), 1)]"
    by (simp add: filtered_eq fuse_probs_length cand num_classes_def am0 am1 bx0 bx1
        two_objects_probs)
  then show ?thesis by (simp add: candidates_eq [OF two_objects_length gb])
qed

lemma two_objects_iou: "iou (650, 650, 7, 7) (50, 50, 7, 7) = Finite 0"
  by (simp add: iou_def np_divide_def iou_union_def iou_intersection_def)

lemma two_objects_result:
  assumes "is_argsort argsort"
  shows "\<exists>buf. get_candidate_objects argsort two_objects_output (700, 700) =
     (Inr [(''tvmonitor'', 650, 650, 7, 7, 1), (''aeroplane'', 50, 50, 7, 7, 1/2)], buf)"
proof -
  have len: "length (drop box_offset two_objects_output) = grid_size * grid_size * num_boxes * 4"
    by (simp add: two_objects_length layout_consts)
  from get_boxes_length_ok [OF len, of "(700, 700)"] obtain boxes where
    gb: "get_boxes (drop box_offset two_objects_output) (700, 700) grid_size num_boxes = Inr boxes"
    by blast
  show ?thesis
    unfolding get_candidate_objects_eq [OF two_objects_length gb] two_objects_candidates
    by (simp add: sorted_desc_pair [OF assms] suppressed_pair two_objects_iou iou_threshold_def
        mk_result_def classes_def)
qed

section \<open>The concrete scenario\<close>

text \<open>
  C1. On the buffer whose only non-zero entries are the class probability 1 at
  (row 3, column 3, class 14), the confidence 1 at (row 3, column 3, box 0) and the raw
  geometry (0.5, 0.5, 0.1, 0.1) of that box, with an image of 700 by 700, the pipeline
  returns exactly one detection: the label is entry 14 of the class table, the centre is
  (350, 350), the width and height are 7 and the score is 1. This holds whatever order
  \<open>np.argsort\<close> gives to equal values.
\<close>

theorem concrete_scenario:
  assumes "is_argsort argsort"
  shows "fst (get_candidate_objects argsort scenario_output (700, 700))
           = Inr [(classes ! 14, 350, 350, 7, 7, 1)]"
proof -
  let ?probs = "fuse_probs (take sc_offset scenario_output) (drop sc_offset (take box_offset scenario_output))"
  from get_candidate_objects_ok [OF scenario_length, of "(700, 700)" argsort] obtain boxes where
    gb: "get_boxes (drop box_offset scenario_output) (700, 700) grid_size num_boxes = Inr boxes"
    and res: "get_candidate_objects argsort scenario_output (700, 700) =
             (Inr (map mk_result (suppressed (sorted_desc argsort (filtered boxes ?probs)))),
              take box_offset scenario_output @ boxes)" by blast
  have len: "length (drop box_offset scenario_output) = grid_size * grid_size * num_boxes * 4"
    by (simp add: scenario_length layout_consts)
  have "3 < grid_size" "0 < num_boxes" by (simp_all add: grid_size_def num_boxes_def)
  from get_boxes_box_at [OF len this(1) this(1) this(2), of 700 700] gb
  have bx: "box_at boxes 48 = (350, 350, 7, 7)"
    by (simp add: grid_size_def num_boxes_def layout_consts scenario_length scenario_nth power2_eq_square)
  have cand: "filter (\<lambda>n. threshold \<le> ?probs ! n) [0..<1960] = [974]"
    by (rule filter_upt_eq) (auto simp add: scenario_probs threshold_def split: if_splits)
  have "find (\<lambda>k. map (\<lambda>p. threshold \<le> p) ?probs ! (48 * num_classes + k)) [0..<num_classes] = Some 14"
    unfolding find_Some_iff
    by (rule exI [of _ 14]) (simp add: num_classes_def fuse_probs_length scenario_probs threshold_def)
  then have am: "argmax_axis3 (map (\<lambda>p. threshold \<le> p) ?probs) 48 = 14"
    by (simp add: argmax_axis3_def)
  have "filtered boxes ?probs = [(14, (350, 350, 7, 7), 1)]"
    by (simp add: filtered_eq fuse_probs_length cand num_classes_def am bx scenario_probs)
  then have "suppressed (sorted_desc argsort (filtered boxes ?probs)) = [(14, (350, 350, 7, 7), 1)]"
    by (simp add: sorted_desc_single [OF assms] suppressed_single)
  then show ?thesis unfolding res by (simp add: mk_result_def)
qed

theorem concrete_scenario_witness:
  "is_argsort insertion_argsort \<and>
   fst (get_candidate_objects insertion_argsort scenario_output (700, 700))
     = Inr [(classes ! 14, 350, 350, 7, 7, 1)]"
  using concrete_scenario [OF insertion_argsort_ok] insertion_argsort_ok by simp

section \<open>The geometry of a box\<close>

text \<open>
  C2. For every cell (row, col) of the grid, every box index b and the raw components
  (rx, ry, rw, rh) stored for it, the resolved box is
  cx = (rx + col) / S * image width, cy = (ry + row) / S * image height,
  w = rw squared * image width, h = rh squared * image height, with S the grid size of
  the program: the column index goes to the x component and the row index to the y
  component, and the sizes are squared.
\<close>

theorem get_boxes_geometry:
  assumes "length output = grid_size * grid_size * B * 4"
    and "row < grid_size" and "col < grid_size" and "b < B"
  shows "\<exists>boxes. get_boxes output (h_img, w_img) grid_size B = Inr boxes \<and>
           box_at boxes ((row * grid_size + col) * B + b) =
             ((output ! (((row * grid_size + col) * B + b) * 4) + real col) / real grid_size * real w_img,
              (output ! (((row * grid_size + col) * B + b) * 4 + 1) + real row) / real grid_size * real h_img,
              (output ! (((row * grid_size + col) * B + b) * 4 + 2))\<^sup>2 * real w_img,
              (output ! (((row * grid_size + col) * B + b) * 4 + 3))\<^sup>2 * real h_img)"
  using assms by (rule get_boxes_box_at)

theorem get_boxes_geometry_witness:
  "length (replicate 196 (1/2 :: real)) = grid_size * grid_size * 1 * 4 \<and>
   3 < grid_size \<and> 2 < grid_size \<and> (0 :: nat) < 1 \<and>
   (\<exists>boxes. get_boxes (replicate 196 (1/2)) (480, 640) grid_size 1 = Inr boxes \<and>
      box_at boxes ((3 * grid_size + 2) * 1 + 0) = ((1/2 + 2) / 7 * 640, (1/2 + 3) / 7 * 480, 160, 120))"
  using get_boxes_geometry [of "replicate 196 (1/2)" 1 3 2 0 480 640]
  by (simp add: grid_size_def power2_eq_square)

section \<open>The shape of the input\<close>

text \<open>
  C7, as stated, fails: the claim is for any S, C, B of at least 1, and for S = C = B = 1
  the length it asks for is 1 + 1 + 4 = 6, but the decoder has no such parameters and
  refuses a buffer of length 6.
\<close>

theorem decode_has_fixed_constants:
  "length (replicate 6 (0 :: real)) = 1 * 1 * 1 + 1 * 1 * 1 + 1 * 1 * 1 * 4 \<and>
   parse_yolo_output (replicate 6 0) (700, 700) = (Inl (ValueError 6 [7, 7, 20]), replicate 6 0)"
  using parse_yolo_output_fail [of "replicate 6 0" "(700, 700)"]
  by (simp add: layout_consts grid_size_def num_classes_def)

text \<open>
  C7, amended. For the S = 7, C = 20 and B = 2 that are fixed inside the decoder,
  decoding succeeds if and only if the length of the buffer is exactly
  S*S*C + S*S*B + S*S*B*4 (1470); a shorter or a longer buffer fails with the
  \<open>ValueError\<close> of the first \<open>np.reshape\<close> whose slice does not have the size of its shape,
  the buffer is left as it was, and nothing is truncated or reshaped on a best-effort
  basis.
\<close>

theorem decode_shape_invariant:
  "((\<exists>boxes probs buf. parse_yolo_output output img_size = (Inr (boxes, probs), buf)) =
     (length output = grid_size * grid_size * num_classes + grid_size * grid_size * num_boxes
                      + grid_size * grid_size * num_boxes * 4)) \<and>
   (length output \<noteq> grid_size * grid_size * num_classes + grid_size * grid_size * num_boxes
                      + grid_size * grid_size * num_boxes * 4 \<longrightarrow>
      parse_yolo_output output img_size =
        (Inl (if length output < sc_offset
              then ValueError (length output) [grid_size, grid_size, num_classes]
              else if length output < box_offset
              then ValueError (length output - sc_offset) [grid_size, grid_size, num_boxes]
              else ValueError (length output - box_offset) [grid_size, grid_size, num_boxes, 4]),
         output))"
proof -
  have L: "grid_size * grid_size * num_classes + grid_size * grid_size * num_boxes
             + grid_size * grid_size * num_boxes * 4 = 1470"
    by (simp add: grid_size_def num_classes_def num_boxes_def)
  show ?thesis
  proof (cases "length output = 1470")
    case True
    from parse_yolo_output_ok [OF True, of img_size] show ?thesis
      unfolding L using True by auto
  next
    case False
    from parse_yolo_output_fail [OF False, of img_size] show ?thesis
      unfolding L using False by simp
  qed
qed

theorem decode_shape_invariant_witness:
  "length (replicate 1471 (0 :: real)) \<noteq> grid_size * grid_size * num_classes
      + grid_size * grid_size * num_boxes + grid_size * grid_size * num_boxes * 4 \<and>
   parse_yolo_output (replicate 1471 0) (700, 700)
     = (Inl (ValueError 393 [7, 7, 2, 4]), replicate 1471 0) \<and>
   parse_yolo_output (replicate 1469 0) (700, 700)
     = (Inl (ValueError 391 [7, 7, 2, 4]), replicate 1469 0) \<and>
   parse_yolo_output (replicate 1000 0) (700, 700)
     = (Inl (ValueError 20 [7, 7, 2]), replicate 1000 0) \<and>
   parse_yolo_output (replicate 3 0) (700, 700)
     = (Inl (ValueError 3 [7, 7, 20]), replicate 3 0) \<and>
   (\<exists>boxes probs buf. parse_yolo_output (replicate 1470 0) (700, 700) = (Inr (boxes, probs), buf))"
  using decode_shape_invariant [of "replicate 1471 0" "(700, 700)"]
    decode_shape_invariant [of "replicate 1469 0" "(700, 700)"]
    decode_shape_invariant [of "replicate 1000 0" "(700, 700)"]
    decode_shape_invariant [of "replicate 3 0" "(700, 700)"]
    decode_shape_invariant [of "replicate 1470 0" "(700, 700)"]
  by (simp add: layout_consts grid_size_def num_classes_def num_boxes_def)

section \<open>Labels of the candidates\<close>

text \<open>
  C3. The class id of a candidate is read from \<open>np.argmax\<close> over the boolean mask, which is
  the first class of the box that passes the threshold. On the buffer where classes 0 and
  1 of box 0 in cell (0, 0) both pass, the score-tensor entry of class 1 is 1, both
  candidates carry class id 0, and the detection returned with score 1 is labelled with
  entry 0 of the class table, not entry 1.
\<close>

theorem label_of_first_passing_class:
  assumes "is_argsort argsort"
  shows "fuse_probs (take sc_offset two_class_output)
      (drop sc_offset (take box_offset two_class_output)) ! 1 = 1 \<and>
   candidates two_class_output (700, 700) = [(0, (50, 50, 7, 7), 1/2), (0, (50, 50, 7, 7), 1)] \<and>
   fst (get_candidate_objects argsort two_class_output (700, 700))
     = Inr [(classes ! 0, 50, 50, 7, 7, 1)] \<and>
   classes ! 0 \<noteq> classes ! 1"
  using two_class_result [OF assms]
  by (simp add: two_class_probs two_class_candidates classes_def)

theorem label_of_first_passing_class_witness:
  "is_argsort insertion_argsort \<and>
   fuse_probs (take sc_offset two_class_output)
      (drop sc_offset (take box_offset two_class_output)) ! 1 = 1 \<and>
   candidates two_class_output (700, 700) = [(0, (50, 50, 7, 7), 1/2), (0, (50, 50, 7, 7), 1)] \<and>
   fst (get_candidate_objects insertion_argsort two_class_output (700, 700))
     = Inr [(classes ! 0, 50, 50, 7, 7, 1)] \<and>
   classes ! 0 \<noteq> classes ! 1"
  using label_of_first_passing_class [OF insertion_argsort_ok] insertion_argsort_ok by simp

section \<open>Ties between scores\<close>

text \<open>
  C4, as stated, fails: an \<open>argsort\<close> that returns \<open>[0, 1]\<close> on two equal values, as
  \<open>np.argsort\<close> does, is reversed to \<open>[1, 0]\<close>. On the buffer with two boxes of equal
  score 1 whose overlap is 0.64, the candidate enumerated first (width 112) is suppressed
  and the one enumerated second (width 175) is returned.
\<close>

theorem tie_later_candidate_survives:
  "is_argsort insertion_argsort \<and> insertion_argsort [1, 1] = [0, 1] \<and>
   candidates tie_output (700, 700) = [(0, (50, 50, 112, 175), 1), (0, (50, 50, 175, 175), 1)] \<and>
   np_greater (iou (50, 50, 112, 175) (50, 50, 175, 175)) iou_threshold \<and>
   fst (get_candidate_objects insertion_argsort tie_output (700, 700))
     = Inr [(''aeroplane'', 50, 50, 175, 175, 1)]"
  using tie_result insertion_argsort_ok
  by (simp add: tie_candidates tie_iou iou_threshold_def insertion_argsort_tie)

text \<open>
  C4, amended. The sort by descending score does not keep the enumeration order of
  candidates with identical score: their order is the one that \<open>np.argsort\<close> (not stable)
  gives, reversed. Whenever the candidates at enumeration positions a < b have identical
  score and their overlap exceeds the suppression threshold, they stand at two different
  places of the sorted order and at most one of them survives: the one that stands first
  suppresses the other, unless it has itself been suppressed.
\<close>

theorem equal_scores_one_survivor:
  fixes cs :: "(nat \<times> box \<times> real) list"
  assumes "is_argsort argsort" and "a < b" and "b < length cs"
    and "snd (snd (cs ! a)) = snd (snd (cs ! b))"
    and "np_greater (iou (fst (snd (cs ! a))) (fst (snd (cs ! b)))) iou_threshold"
  shows "\<exists>p q. p < length cs \<and> q < length cs \<and> p \<noteq> q \<and>
           rev (argsort (map (\<lambda>t. snd (snd t)) cs)) ! p = a \<and>
           rev (argsort (map (\<lambda>t. snd (snd t)) cs)) ! q = b \<and>
           sorted_desc argsort cs ! p = cs ! a \<and> sorted_desc argsort cs ! q = cs ! b \<and>
           (p < q \<longrightarrow>
              nms (map (\<lambda>t. fst (snd t)) (sorted_desc argsort cs))
                  (map (\<lambda>t. snd (snd t)) (sorted_desc argsort cs)) ! p \<noteq> 0 \<longrightarrow>
              nms (map (\<lambda>t. fst (snd t)) (sorted_desc argsort cs))
                  (map (\<lambda>t. snd (snd t)) (sorted_desc argsort cs)) ! q = 0) \<and>
           (q < p \<longrightarrow>
              nms (map (\<lambda>t. fst (snd t)) (sorted_desc argsort cs))
                  (map (\<lambda>t. snd (snd t)) (sorted_desc argsort cs)) ! q \<noteq> 0 \<longrightarrow>
              nms (map (\<lambda>t. fst (snd t)) (sorted_desc argsort cs))
                  (map (\<lambda>t. snd (snd t)) (sorted_desc argsort cs)) ! p = 0)"
proof -
  let ?xs = "map (\<lambda>t. snd (snd t)) cs"
  let ?sd = "sorted_desc argsort cs"
  let ?bs = "map (\<lambda>t. fst (snd t)) ?sd"
  let ?ps = "map (\<lambda>t. snd (snd t)) ?sd"
  have lb: "b < length ?xs" using assms(3) by simp
  from rev_argsort_places [OF assms(1) assms(2) lb] obtain p q where
    pq: "p < length cs" "q < length cs" "p \<noteq> q"
        "rev (argsort ?xs) ! p = a" "rev (argsort ?xs) ! q = b"
    by auto
  have sp: "?sd ! p = cs ! a" and sq: "?sd ! q = cs ! b"
    using pq by (simp_all add: sorted_desc_nth [OF assms(1)])
  have len: "length ?bs = length cs" "length ?ps = length cs"
    by (simp_all add: sorted_desc_length [OF assms(1)])
  have bp: "?bs ! p = fst (snd (cs ! a))" and bq: "?bs ! q = fst (snd (cs ! b))"
    using pq sp sq by (simp_all add: sorted_desc_length [OF assms(1)])
  have over_pq: "np_greater (iou (?bs ! p) (?bs ! q)) iou_threshold"
    unfolding bp bq by (rule assms(5))
  have over_qp: "np_greater (iou (?bs ! q) (?bs ! p)) iou_threshold"
    unfolding bp bq iou_commute [of "fst (snd (cs ! b))"] by (rule assms(5))
  have 1: "nms ?bs ?ps ! q = 0" if "p < q" "nms ?bs ?ps ! p \<noteq> 0"
    using that pq(2) len over_pq by (intro nms_suppresses [of p q]) simp_all
  have 2: "nms ?bs ?ps ! p = 0" if "q < p" "nms ?bs ?ps ! q \<noteq> 0"
    using that pq(1) len over_qp by (intro nms_suppresses [of q p]) simp_all
  from pq sp sq 1 2 show ?thesis by blast
qed

theorem equal_scores_one_survivor_witness:
  "is_argsort insertion_argsort \<and> (0 :: nat) < 1 \<and> 1 < length (candidates tie_output (700, 700)) \<and>
   snd (snd (candidates tie_output (700, 700) ! 0)) = snd (snd (candidates tie_output (700, 700) ! 1)) \<and>
   np_greater (iou (fst (snd (candidates tie_output (700, 700) ! 0)))
                   (fst (snd (candidates tie_output (700, 700) ! 1)))) iou_threshold \<and>
   (\<exists>p q. p < length (candidates tie_output (700, 700)) \<and>
      q < length (candidates tie_output (700, 700)) \<and> p \<noteq> q \<and>
      rev (insertion_argsort (map (\<lambda>t. snd (snd t)) (candidates tie_output (700, 700)))) ! p = 0 \<and>
      rev (insertion_argsort (map (\<lambda>t. snd (snd t)) (candidates tie_output (700, 700)))) ! q = 1 \<and>
      sorted_desc insertion_argsort (candidates tie_output (700, 700)) ! p
        = candidates tie_output (700, 700) ! 0 \<and>
      sorted_desc insertion_argsort (candidates tie_output (700, 700)) ! q
        = candidates tie_output (700, 700) ! 1 \<and>
      (p < q \<longrightarrow>
         nms (map (\<lambda>t. fst (snd t)) (sorted_desc insertion_argsort (candidates tie_output (700, 700))))
             (map (\<lambda>t. snd (snd t)) (sorted_desc insertion_argsort (candidates tie_output (700, 700)))) ! p \<noteq> 0 \<longrightarrow>
         nms (map (\<lambda>t. fst (snd t)) (sorted_desc insertion_argsort (candidates tie_output (700, 700))))
             (map (\<lambda>t. snd (snd t)) (sorted_desc insertion_argsort (candidates tie_output (700, 700)))) ! q = 0) \<and>
      (q < p \<longrightarrow>
         nms (map (\<lambda>t. fst (snd t)) (sorted_desc insertion_argsort (candidates tie_output (700, 700))))
             (map (\<lambda>t. snd (snd t)) (sorted_desc insertion_argsort (candidates tie_output (700, 700)))) ! q \<noteq> 0 \<longrightarrow>
         nms (map (\<lambda>t. fst (snd t)) (sorted_desc insertion_argsort (candidates tie_output (700, 700))))
             (map (\<lambda>t. snd (snd t)) (sorted_desc insertion_argsort (candidates tie_output (700, 700)))) ! p = 0))"
proof -
  let ?cs = "candidates tie_output (700, 700)"
  have h1: "(0 :: nat) < 1" by simp
  have h2: "1 < length ?cs" by (simp add: tie_candidates)
  have h3: "snd (snd (?cs ! 0)) = snd (snd (?cs ! 1))" by (simp add: tie_candidates)
  have h4: "np_greater (iou (fst (snd (?cs ! 0))) (fst (snd (?cs ! 1)))) iou_threshold"
    by (simp add: tie_candidates tie_iou iou_threshold_def)
  from equal_scores_one_survivor [OF insertion_argsort_ok h1 h2 h3 h4]
    insertion_argsort_ok h1 h2 h3 h4 show ?thesis by (intro conjI)
qed

section \<open>Boxes without area\<close>

text \<open>
  C5, as stated, fails: for two boxes of width 0 and height 0 the combined area is 0 and
  \<open>iou\<close> returns \<open>nan\<close>; for a box of width 0 and height 0 against a box with an area the
  combined area is not 0 and \<open>iou\<close> returns 0. No error is raised in either case.
\<close>

theorem iou_degenerate_returns_nan:
  "iou_union (0, 0, 0, 0) (0, 0, 0, 0) = 0 \<and> iou (0, 0, 0, 0) (0, 0, 0, 0) = NaN \<and>
   iou (0, 0, 0, 0) (1, 1, 2, 2) = Finite 0"
  by (simp add: iou_def np_divide_def iou_union_def iou_intersection_def)

text \<open>
  C5, amended. For any pair of boxes whose combined area
  w1*h1 + w2*h2 - intersection is zero, \<open>iou\<close> raises no error: it returns \<open>nan\<close>, which
  is not greater than the suppression threshold, so neither box suppresses the other.
  A box of width 0 and height 0 compared with a box of non-zero area has overlap 0.
\<close>

theorem iou_zero_union_is_nan:
  "(iou_union a b = 0 \<longrightarrow> iou a b = NaN \<and> \<not> np_greater (iou a b) iou_threshold) \<and>
   (w2 * h2 \<noteq> 0 \<longrightarrow> iou (x1, y1, 0, 0) (x2, y2, w2, h2) = Finite 0)"
proof (intro conjI impI)
  assume "iou_union a b = 0"
  then show "iou a b = NaN" by (rule iou_degenerate)
  then show "\<not> np_greater (iou a b) iou_threshold" by simp
next
  assume "w2 * h2 \<noteq> 0"
  then show "iou (x1, y1, 0, 0) (x2, y2, w2, h2) = Finite 0"
    by (simp add: iou_def np_divide_def iou_union_def iou_intersection_def max_def min_def)
qed

theorem iou_zero_union_is_nan_witness:
  "iou_union (3, 4, 0, 0) (5, 6, 0, 0) = 0 \<and> iou (3, 4, 0, 0) (5, 6, 0, 0) = NaN \<and>
   \<not> np_greater (iou (3, 4, 0, 0) (5, 6, 0, 0)) iou_threshold \<and>
   (2 :: real) * 2 \<noteq> 0 \<and> iou (3, 4, 0, 0) (1, 1, 2, 2) = Finite 0"
proof -
  have h: "iou_union (3, 4, 0, 0) (5, 6, 0, 0) = 0"
    by (simp add: iou_union_def iou_intersection_def)
  have k: "(2 :: real) * 2 \<noteq> 0" by simp
  from iou_zero_union_is_nan [of "(3, 4, 0, 0)" "(5, 6, 0, 0)" 2 2 3 4 1 1] h k
  show ?thesis by blast
qed

section \<open>The caller's buffer\<close>

text \<open>
  C6, as stated, fails: after the call on the scenario buffer, entry 1270 of the caller's
  buffer (the raw x of box 0 in cell (3, 3), 0.5 before the call) holds the pixel
  coordinate 350.
\<close>

theorem buffer_is_mutated:
  "scenario_output ! 1270 = 1/2 \<and>
   snd (get_candidate_objects insertion_argsort scenario_output (700, 700)) ! 1270 = 350"
proof -
  from get_candidate_objects_ok [OF scenario_length, of "(700, 700)" insertion_argsort]
  obtain boxes where
    gb: "get_boxes (drop box_offset scenario_output) (700, 700) grid_size num_boxes = Inr boxes"
    and len: "length boxes = 392"
    and res: "snd (get_candidate_objects insertion_argsort scenario_output (700, 700)) =
                take box_offset scenario_output @ boxes" by auto
  have l: "length (drop box_offset scenario_output) = grid_size * grid_size * num_boxes * 4"
    by (simp add: scenario_length layout_consts)
  have "3 < grid_size" "0 < num_boxes" by (simp_all add: grid_size_def num_boxes_def)
  from get_boxes_box_at [OF l this(1) this(1) this(2), of 700 700] gb
  have "box_at boxes 48 = (350, 350, 7, 7)"
    by (simp add: grid_size_def num_boxes_def layout_consts scenario_length scenario_nth
        power2_eq_square)
  then have "boxes ! 192 = 350" by (simp add: box_at_def)
  then have "(take box_offset scenario_output @ boxes) ! 1270 = 350"
    by (simp add: nth_append layout_consts scenario_length)
  then show ?thesis unfolding res by (simp add: scenario_nth)
qed

text \<open>
  C6, amended. The geometry transform writes through a view of the input buffer: after a
  call on a buffer of the right length, the first S*S*C + S*S*B entries (class
  probabilities and confidences) are what they were before the call, and the last S*S*B*4
  entries hold the transformed boxes that \<open>get_boxes\<close> returns; a call that fails on the
  shape leaves the buffer as it was.
\<close>

theorem buffer_after_call:
  "(length output = box_offset + grid_size * grid_size * num_boxes * 4 \<longrightarrow>
      (\<exists>boxes. get_boxes (drop box_offset output) img_size grid_size num_boxes = Inr boxes \<and>
         length (snd (get_candidate_objects argsort output img_size)) = length output \<and>
         take box_offset (snd (get_candidate_objects argsort output img_size))
           = take box_offset output \<and>
         drop box_offset (snd (get_candidate_objects argsort output img_size)) = boxes)) \<and>
   (length output \<noteq> box_offset + grid_size * grid_size * num_boxes * 4 \<longrightarrow>
      (\<exists>n s. get_candidate_objects argsort output img_size = (Inl (ValueError n s), output)))"
proof (intro conjI impI)
  assume "length output = box_offset + grid_size * grid_size * num_boxes * 4"
  then have L: "length output = 1470" by (simp add: layout_consts)
  from get_candidate_objects_ok [OF L, of img_size argsort] obtain boxes where
    gb: "get_boxes (drop box_offset output) img_size grid_size num_boxes = Inr boxes"
    and len: "length boxes = 392"
    and res: "snd (get_candidate_objects argsort output img_size) = take box_offset output @ boxes"
    by auto
  have "length (take box_offset output) = box_offset" using L by (simp add: layout_consts)
  then have "take box_offset (take box_offset output @ boxes) = take box_offset output"
    and "drop box_offset (take box_offset output @ boxes) = boxes" by simp_all
  moreover have "length (take box_offset output @ boxes) = length output"
    using L len by (simp add: layout_consts)
  ultimately show "\<exists>boxes. get_boxes (drop box_offset output) img_size grid_size num_boxes = Inr boxes \<and>
         length (snd (get_candidate_objects argsort output img_size)) = length output \<and>
         take box_offset (snd (get_candidate_objects argsort output img_size))
           = take box_offset output \<and>
         drop box_offset (snd (get_candidate_objects argsort output img_size)) = boxes"
    using gb unfolding res by blast
next
  assume "length output \<noteq> box_offset + grid_size * grid_size * num_boxes * 4"
  then have "length output \<noteq> 1470" by (simp add: layout_consts)
  from parse_yolo_output_fail [OF this, of img_size]
  show "\<exists>n s. get_candidate_objects argsort output img_size = (Inl (ValueError n s), output)"
    by (simp add: get_candidate_objects_def)
qed

theorem buffer_after_call_witness:
  "length scenario_output = box_offset + grid_size * grid_size * num_boxes * 4 \<and>
   (\<exists>boxes. get_boxes (drop box_offset scenario_output) (700, 700) grid_size num_boxes = Inr boxes \<and>
      length (snd (get_candidate_objects insertion_argsort scenario_output (700, 700)))
        = length scenario_output \<and>
      take box_offset (snd (get_candidate_objects insertion_argsort scenario_output (700, 700)))
        = take box_offset scenario_output \<and>
      drop box_offset (snd (get_candidate_objects insertion_argsort scenario_output (700, 700))) = boxes) \<and>
   length (replicate 3 (0 :: real)) \<noteq> box_offset + grid_size * grid_size * num_boxes * 4 \<and>
   (\<exists>n s. get_candidate_objects insertion_argsort (replicate 3 0) (700, 700)
      = (Inl (ValueError n s), replicate 3 0))"
proof -
  have h: "length scenario_output = box_offset + grid_size * grid_size * num_boxes * 4"
    by (simp add: scenario_length layout_consts)
  have k: "length (replicate 3 (0 :: real)) \<noteq> box_offset + grid_size * grid_size * num_boxes * 4"
    by (simp add: layout_consts)
  from buffer_after_call [of scenario_output "(700, 700)" insertion_argsort]
    buffer_after_call [of "replicate 3 0" "(700, 700)" insertion_argsort] h k
  show ?thesis by blast
qed

section \<open>Suppression only removes\<close>

text \<open>
  C8. The detections returned are at most as many as the candidates that passed the
  threshold, and they are a subsequence of the sorted candidates turned into result rows:
  every surviving detection has the label, the box and the score it had before the
  suppression, and each is the row of a candidate that passed the threshold. This holds
  whatever order \<open>np.argsort\<close> gives to equal values.
\<close>

theorem suppression_only_removes:
  assumes "is_argsort argsort"
    and "get_candidate_objects argsort output img_size = (Inr dets, buf)"
  shows "\<exists>boxes probs. parse_yolo_output output img_size = (Inr (boxes, probs), buf) \<and>
           length dets \<le> length (filtered boxes probs) \<and>
           subseq dets (map mk_result (sorted_desc argsort (filtered boxes probs))) \<and>
           set dets \<subseteq> mk_result ` set (filtered boxes probs)"
proof -
  from get_candidate_objects_Inr [OF assms(2)] obtain boxes probs where
    p: "parse_yolo_output output img_size = (Inr (boxes, probs), buf)"
    and d: "dets = map mk_result (suppressed (sorted_desc argsort (filtered boxes probs)))" by blast
  let ?cs = "filtered boxes probs"
  have s: "subseq (suppressed (sorted_desc argsort ?cs)) (sorted_desc argsort ?cs)"
    by (rule suppressed_subseq)
  then have "length (suppressed (sorted_desc argsort ?cs)) \<le> length (sorted_desc argsort ?cs)"
    by (rule list_emb_length)
  then have 1: "length dets \<le> length ?cs" by (simp add: d sorted_desc_length [OF assms(1)])
  from s have 2: "subseq dets (map mk_result (sorted_desc argsort ?cs))"
    unfolding d by (rule subseq_map)
  from s have "set (suppressed (sorted_desc argsort ?cs)) \<subseteq> set (sorted_desc argsort ?cs)"
    by (rule subseq_set_subset)
  then have 3: "set dets \<subseteq> mk_result ` set ?cs"
    by (auto simp add: d sorted_desc_set [OF assms(1)])
  from p 1 2 3 show ?thesis by blast
qed

theorem suppression_only_removes_witness:
  "is_argsort insertion_argsort \<and>
   get_candidate_objects insertion_argsort tie_output (700, 700) =
     (Inr [(''aeroplane'', 50, 50, 175, 175, 1)],
      snd (get_candidate_objects insertion_argsort tie_output (700, 700))) \<and>
   length (candidates tie_output (700, 700)) = 2 \<and>
   (\<exists>boxes probs. parse_yolo_output tie_output (700, 700)
        = (Inr (boxes, probs), snd (get_candidate_objects insertion_argsort tie_output (700, 700))) \<and>
      length [(''aeroplane'', 50, 50, 175, 175, 1) :: detection] \<le> length (filtered boxes probs) \<and>
      subseq [(''aeroplane'', 50, 50, 175, 175, 1)]
        (map mk_result (sorted_desc insertion_argsort (filtered boxes probs))) \<and>
      set [(''aeroplane'', 50, 50, 175, 175, 1)] \<subseteq> mk_result ` set (filtered boxes probs))"
proof -
  have h: "get_candidate_objects insertion_argsort tie_output (700, 700) =
     (Inr [(''aeroplane'', 50, 50, 175, 175, 1)],
      snd (get_candidate_objects insertion_argsort tie_output (700, 700)))"
    using tie_result by (simp add: prod_eq_iff)
  have "length (candidates tie_output (700, 700)) = 2" by (simp add: tie_candidates)
  with suppression_only_removes [OF insertion_argsort_ok h] h insertion_argsort_ok
  show ?thesis by (intro conjI)
qed

section \<open>The order of the detections\<close>

text \<open>
  C9. The detections returned are sorted by score in non-increasing order, whatever order
  \<open>np.argsort\<close> gives to equal values.
\<close>

theorem detections_sorted:
  assumes "is_argsort argsort"
    and "get_candidate_objects argsort output img_size = (Inr dets, buf)"
  shows "sorted_wrt (\<lambda>d e. det_score e \<le> det_score d) dets"
  using get_candidate_objects_Inr [OF assms(2)] results_sorted [OF assms(1)] by auto

theorem detections_sorted_witness:
  "is_argsort insertion_argsort \<and>
   get_candidate_objects insertion_argsort two_objects_output (700, 700) =
     (Inr [(''tvmonitor'', 650, 650, 7, 7, 1), (''aeroplane'', 50, 50, 7, 7, 1/2)],
      snd (get_candidate_objects insertion_argsort two_objects_output (700, 700))) \<and>
   sorted_wrt (\<lambda>d e. det_score e \<le> det_score d)
     [(''tvmonitor'', 650, 650, 7, 7, 1), (''aeroplane'', 50, 50, 7, 7, 1/2)]"
proof -
  from two_objects_result [OF insertion_argsort_ok]
  have h: "get_candidate_objects insertion_argsort two_objects_output (700, 700) =
     (Inr [(''tvmonitor'', 650, 650, 7, 7, 1), (''aeroplane'', 50, 50, 7, 7, 1/2)],
      snd (get_candidate_objects insertion_argsort two_objects_output (700, 700)))" by auto
  from detections_sorted [OF insertion_argsort_ok h] h insertion_argsort_ok
  show ?thesis by (intro conjI)
qed

section \<open>Symmetry of the overlap\<close>

text \<open>
  C10. For every pair of boxes whose combined area is not zero, the overlap of A with B
  is the same finite number as the overlap of B with A.
\<close>

theorem iou_symmetric:
  assumes "iou_union a b \<noteq> 0"
  shows "\<exists>v. iou a b = Finite v \<and> iou b a = Finite v"
  using iou_finite [OF assms] iou_commute [of a b] by simp

theorem iou_symmetric_witness:
  "iou_union (0, 0, 2, 2) (1, 1, 2, 2) \<noteq> 0 \<and>
   (\<exists>v. iou (0, 0, 2, 2) (1, 1, 2, 2) = Finite v \<and> iou (1, 1, 2, 2) (0, 0, 2, 2) = Finite v)"
proof -
  have h: "iou_union (0, 0, 2, 2) (1, 1, 2, 2) \<noteq> 0"
    by (simp add: iou_union_def iou_intersection_def)
  from iou_symmetric [OF h] h show ?thesis by blast
qed

end
